theory Spec2Isabelle
  imports Complex_Main "HOL-Library.Product_Lexorder" "HOL-Library.Multiset"
begin

section \<open>Shallow embedding of ZVK.py (Zariski-Van Kampen braid monodromy)\<close>

text \<open>
  Numbers are modelled exactly: a time or a coordinate is a rational, a complex number is
  the pair of its real and imaginary parts, compared as the source compares the lists
  \<open>[re, im]\<close> (lexicographically). Python's unbounded integers are \<open>nat\<close> or \<open>int\<close>.
  Every exception of the source is a value of \<open>error\<close>, returned on the left of a sum.
  Division is Python's: a zero divisor raises.
\<close>

datatype error =
    ValueError
  | IndexError
  | ZeroDivisionError
  | RootsTooClose
  | GroupConstructionError

definition ebind :: "error + 'a \<Rightarrow> ('a \<Rightarrow> error + 'b) \<Rightarrow> error + 'b" where
  "ebind m f = (case m of Inl e \<Rightarrow> Inl e | Inr x \<Rightarrow> f x)"

fun emap :: "('a \<Rightarrow> error + 'b) \<Rightarrow> 'a list \<Rightarrow> error + 'b list" where
  "emap f [] = Inr []"
| "emap f (x # xs) =
     (case f x of
        Inl e \<Rightarrow> Inl e
      | Inr y \<Rightarrow> (case emap f xs of Inl e \<Rightarrow> Inl e | Inr ys \<Rightarrow> Inr (y # ys)))"

definition py_nth :: "'a list \<Rightarrow> nat \<Rightarrow> error + 'a" where
  "py_nth xs i = (if i < length xs then Inr (xs ! i) else Inl IndexError)"

fun py_min :: "rat list \<Rightarrow> error + rat" where
  "py_min [] = Inl ValueError"
| "py_min (x # xs) = Inr (fold min xs x)"

subsection \<open>followstrand: precision escalation\<close>

text \<open>
  \<open>followstrand(f, x0, x1, y0a, prec)\<close> prepares the interval coefficients at precision
  \<open>prec\<close> and calls the continuation kernel inside \<open>try\<close>: \<open>contpath\<close> when
  \<open>prec == 53\<close>, \<open>contpath_mp\<close> otherwise. The bare \<open>except:\<close> catches every
  failure of the kernel and returns \<open>followstrand(f, x0, x1, y0a, 2*prec)\<close>. The kernels
  and the coefficient set-up are external: they are parameters here, \<open>coefs prec\<close> being
  the flattened coefficient list at precision \<open>prec\<close>. The recursion has no bound, so the
  function is partial: \<open>None\<close> is the run that never returns.
\<close>

definition kernel_call ::
  "(nat \<Rightarrow> 'c) \<Rightarrow> ('c \<Rightarrow> 'e + 'p) \<Rightarrow> ('c \<Rightarrow> nat \<Rightarrow> 'e + 'p) \<Rightarrow> nat \<Rightarrow> 'e + 'p" where
  "kernel_call coefs contpath contpath_mp prec =
     (if prec = 53 then contpath (coefs prec) else contpath_mp (coefs prec) prec)"

partial_function (option) followstrand ::
  "(nat \<Rightarrow> 'c) \<Rightarrow> ('c \<Rightarrow> 'e + 'p) \<Rightarrow> ('c \<Rightarrow> nat \<Rightarrow> 'e + 'p) \<Rightarrow> nat \<Rightarrow> 'p option" where
  "followstrand coefs contpath contpath_mp prec =
     (case kernel_call coefs contpath contpath_mp prec of
        Inr points \<Rightarrow> Some points
      | Inl e \<Rightarrow> followstrand coefs contpath contpath_mp (2 * prec))"

subsection \<open>braid_from_piecewise: merging the strands onto a common time grid\<close>

type_synonym point = "rat \<times> rat"
type_synonym sample = "rat \<times> point"
type_synonym strand = "sample list"

text \<open>
  \<open>min([L[k][indices[k]][0] for k in range(len(L))])\<close>: the list is built first (an index
  out of range raises IndexError), then \<open>min\<close> raises ValueError on the empty list. The
  state of the loop is kept per strand, as the pair of \<open>indices[j]\<close> and
  \<open>totalpoints[j]\<close>.
\<close>

definition next_time :: "strand list \<Rightarrow> (nat \<times> point list) list \<Rightarrow> error + rat" where
  "next_time L st =
     ebind (emap (\<lambda>(Lk, idx, tp). ebind (py_nth Lk idx) (\<lambda>s. Inr (fst s))) (zip L st)) py_min"

text \<open>
  \<open>interpola = xaux + (yaux - xaux)*(i - aaux)/(baux - aaux)\<close>, on the real and the
  imaginary part; the caller has checked the divisor.
\<close>

definition interpola :: "point \<Rightarrow> point \<Rightarrow> rat \<Rightarrow> rat \<Rightarrow> rat \<Rightarrow> point" where
  "interpola xaux yaux i aaux baux =
     (fst xaux + (fst yaux - fst xaux) * (i - aaux) / (baux - aaux),
      snd xaux + (snd yaux - snd xaux) * (i - aaux) / (baux - aaux))"

text \<open>The body of \<open>for j in range(len(L))\<close> for one strand, at the grid time \<open>i\<close>.\<close>

definition strand_step ::
  "rat \<Rightarrow> strand \<times> nat \<times> point list \<Rightarrow> error + nat \<times> point list" where
  "strand_step i = (\<lambda>(Lj, idx, tp).
     ebind (py_nth Lj idx) (\<lambda>(baux, yaux).
       if baux > i then
         ebind (py_nth Lj (idx - 1)) (\<lambda>(aaux, xaux).
           if baux - aaux = 0 then Inl ZeroDivisionError
           else Inr (idx, tp @ [interpola xaux yaux i aaux baux]))
       else Inr (idx + 1, tp @ [yaux])))"

definition remaining :: "strand list \<Rightarrow> (nat \<times> point list) list \<Rightarrow> nat" where
  "remaining L st = sum_list (map (\<lambda>(Lk, idx, tp). length Lk - idx) (zip L st))"

text \<open>
  \<open>while i < 1\<close>: the variable \<open>i\<close> is assigned the same expression before the loop
  (line 68, where every index is 1) and at the end of the body (line 83), so at the loop
  test it is always \<open>next_time\<close> of the current indices.
\<close>

function merge_loop :: "strand list \<Rightarrow> (nat \<times> point list) list \<Rightarrow> error + (nat \<times> point list) list" where
  "merge_loop L st =
     (case next_time L st of
        Inl e \<Rightarrow> Inl e
      | Inr i \<Rightarrow>
          if i < 1 then
            (case emap (strand_step i) (zip L st) of
               Inl e \<Rightarrow> Inl e
             | Inr st' \<Rightarrow> merge_loop L st')
          else Inr st)"
  by pat_completeness auto

text \<open>
  Lines 67 to 85: the first point of every strand, the interpolated points on the common
  grid, and the last point of every strand (\<open>L[j][-1]\<close>).
\<close>

definition totalpoints :: "strand list \<Rightarrow> error + point list list" where
  "totalpoints L =
     ebind (merge_loop L (map (\<lambda>a. (1, [snd (hd a)])) L)) (\<lambda>st.
       Inr (map (\<lambda>(Lj, idx, tp). tp @ [snd (last Lj)]) (zip L st)))"

subsection \<open>braid_from_piecewise: crossings of one time slice\<close>

definition cmp :: "rat \<Rightarrow> rat \<Rightarrow> int" where
  "cmp a b = (if a < b then - 1 else if a = b then 0 else 1)"

text \<open>A crossing \<open>[t, k, j, -s]\<close> of the list \<open>cruces\<close>.\<close>

type_synonym cruce = "rat \<times> nat \<times> nat \<times> int"

text \<open>
  The body of the double loop (lines 98 to 101) at \<open>j\<close> and \<open>k\<close>: the crossing it
  appends, if any. \<open>l1\<close> and \<open>l2\<close> are the two columns of the sorted list \<open>M\<close>.
\<close>

definition cruce_at :: "point list \<Rightarrow> point list \<Rightarrow> nat \<times> nat \<Rightarrow> error + cruce list" where
  "cruce_at l1 l2 = (\<lambda>(j, k).
     if l2 ! j < l2 ! k then
       (let den = fst (l2 ! k) - fst (l1 ! k) + fst (l1 ! j) - fst (l2 ! j) in
        if den = 0 then Inl ZeroDivisionError
        else
          (let t = (fst (l1 ! j) - fst (l1 ! k)) / den;
               s = cmp (snd (l1 ! k) * (1 - t) + t * snd (l2 ! k))
                       (snd (l1 ! j) * (1 - t) + t * snd (l2 ! j))
           in Inr [(t, k, j, - s)]))
     else Inr [])"

text \<open>\<open>for j in range(len(l2)): for k in range(j)\<close>, in the order of the iteration.\<close>

definition index_pairs :: "nat \<Rightarrow> (nat \<times> nat) list" where
  "index_pairs n = concat (map (\<lambda>j. map (\<lambda>k. (j, k)) [0..<j]) [0..<n])"

definition cruces_of :: "point list \<Rightarrow> point list \<Rightarrow> error + cruce list" where
  "cruces_of l1 l2 =
     ebind (emap (cruce_at l1 l2) (index_pairs (length l2))) (\<lambda>cs. Inr (concat cs))"

subsection \<open>braid_from_piecewise: resolving the crossings into generators\<close>

text \<open>
  \<open>P\<close> is an element of the symmetric group on \<open>1..d\<close>, applied as \<open>P(x)\<close>. Sage
  multiplies permutations left to right, so \<open>G(Permutation([(a, b)]))*P\<close> first swaps
  \<open>a\<close> and \<open>b\<close> and then applies \<open>P\<close>.
\<close>

type_synonym perm = "nat \<Rightarrow> nat"

definition swap_then :: "nat \<Rightarrow> nat \<Rightarrow> perm \<Rightarrow> perm" where
  "swap_then a b P = (\<lambda>x. P (if x = a then b else if x = b then a else x))"

text \<open>An entry \<open>(P(c[2]+1) - P(c[1]+1), c[1], c[2], c[3])\<close> of the list \<open>crossesl\<close>.\<close>

type_synonym crosse = "int \<times> nat \<times> nat \<times> int"

definition distance :: "perm \<Rightarrow> nat \<Rightarrow> nat \<Rightarrow> int" where
  "distance P k j = int (P (j + 1)) - int (P (k + 1))"

definition crosses_of :: "perm \<Rightarrow> cruce list \<Rightarrow> crosse list" where
  "crosses_of P crucesl = map (\<lambda>(t, k, j, s). (distance P k j, k, j, s)) crucesl"

definition recompute :: "perm \<Rightarrow> crosse list \<Rightarrow> crosse list" where
  "recompute P crossesl = map (\<lambda>(d, k, j, s). (distance P k j, k, j, s)) crossesl"

definition generator :: "perm \<Rightarrow> crosse \<Rightarrow> int" where
  "generator P = (\<lambda>(d, k, j, s). s * int (min (P (k + 1)) (P (j + 1))))"

text \<open>
  \<open>while crossesl\<close> (lines 110 to 115): sort, pop the first entry, append its generator,
  update \<open>P\<close>, recompute the remaining entries. The result is the list of the generators
  appended to \<open>braid\<close> and the final \<open>P\<close>.
\<close>

function resolve :: "perm \<Rightarrow> crosse list \<Rightarrow> int list \<times> perm" where
  "resolve P crossesl =
     (if crossesl = [] then ([], P)
      else
        (let c = hd (sort crossesl);
             P' = swap_then (fst (snd c) + 1) (fst (snd (snd c)) + 1) P;
             r = resolve P' (recompute P' (tl (sort crossesl)))
         in (generator P c # fst r, snd r)))"
  by pat_completeness auto
termination
  by (relation "measure (\<lambda>(P, crossesl). length crossesl)") (auto simp: recompute_def)

text \<open>
  \<open>while cruces\<close> (lines 105 to 115): the crossings at the time of the first one are
  taken out of the sorted list and resolved.
\<close>

function process :: "perm \<Rightarrow> cruce list \<Rightarrow> int list" where
  "process P cruces =
     (if cruces = [] then []
      else
        (let crucesl = filter (\<lambda>c. fst c = fst (hd cruces)) cruces;
             r = resolve P (crosses_of P crucesl)
         in fst r @ process (snd r) (drop (length crucesl) cruces)))"
  by pat_completeness auto
termination
proof (relation "measure (\<lambda>(P, cruces). length cruces)")
  show "wf (measure (\<lambda>(P, cruces). length cruces))" by simp
next
  fix P :: perm and cruces crucesl :: "cruce list" and r :: "int list \<times> perm"
  assume ne: "cruces \<noteq> []" and c: "crucesl = filter (\<lambda>c. fst c = fst (hd cruces)) cruces"
  from ne have "hd cruces \<in> set crucesl" unfolding c by simp
  then have "0 < length crucesl" by (cases crucesl) auto
  with ne show "((snd r, drop (length crucesl) cruces), (P, cruces))
      \<in> measure (\<lambda>(P, cruces). length cruces)"
    by (cases cruces) auto
qed

text \<open>
  One pass of \<open>for i in range(len(totalpoints[0]) - 1)\<close> (lines 89 to 115): the
  generators appended to \<open>braid\<close> for the slice between the grid points \<open>i\<close> and
  \<open>i + 1\<close>. \<open>M.sort()\<close> compares the pairs \<open>[l1[s], l2[s]]\<close> lexicographically.
\<close>

definition slice_columns :: "point list list \<Rightarrow> nat \<Rightarrow> (point \<times> point) list" where
  "slice_columns tp i = sort (zip (map (\<lambda>r. r ! i) tp) (map (\<lambda>r. r ! (i + 1)) tp))"

definition slice_braid :: "point list list \<Rightarrow> nat \<Rightarrow> error + int list" where
  "slice_braid tp i =
     (let M = slice_columns tp i in
      ebind (cruces_of (map fst M) (map snd M)) (\<lambda>cruces.
        if length cruces > 0 then Inr (process (\<lambda>x. x) (sort cruces)) else Inr []))"

definition braid_of_points :: "point list list \<Rightarrow> error + int list" where
  "braid_of_points tp =
     ebind (emap (slice_braid tp) [0..<length (hd tp) - 1]) (\<lambda>ws. Inr (concat ws))"

text \<open>The list \<open>braid\<close> at line 116, before it is converted.\<close>

definition braid_list :: "strand list \<Rightarrow> error + int list" where
  "braid_list L = ebind (totalpoints L) braid_of_points"

text \<open>
  Modelled from the spec: the braid group constructor \<open>BraidGroup(d)(braid)\<close> of the
  group-theory collaborator, which is not part of this repository. A braid word is an
  ordered sequence of signed generator indices in \<open>{-(d-1)..-1, 1..d-1}\<close>; a malformed
  index is a GroupConstructionError.
\<close>

definition BraidGroup :: "nat \<Rightarrow> int list \<Rightarrow> error + int list" where
  "BraidGroup d braid =
     (if \<forall>g \<in> set braid. g \<noteq> 0 \<and> \<bar>g\<bar> \<le> int d - 1 then Inr braid
      else Inl GroupConstructionError)"

definition braid_from_piecewise :: "strand list \<Rightarrow> error + int list" where
  "braid_from_piecewise strands = ebind (braid_list strands) (BraidGroup (length strands))"

subsection \<open>segments: the bounded ridges of the padded Voronoi diagram\<close>

text \<open>
  The result of \<open>scipy.spatial.Voronoi\<close>, as far as \<open>segments\<close> reads it: the
  coordinates of the Voronoi vertices and, for every ridge, the indices of its vertices,
  where \<open>-1\<close> stands for the point at infinity.
\<close>

record voronoi =
  vertices :: "point list"
  ridge_vertices :: "int list list"

text \<open>Indexing a Python list or a numpy array by an integer: a negative index counts from the end.\<close>

definition py_index :: "'a list \<Rightarrow> int \<Rightarrow> error + 'a" where
  "py_index xs i =
     (if 0 \<le> i \<and> i < int (length xs) then Inr (xs ! nat i)
      else if i < 0 \<and> - int (length xs) \<le> i then Inr (xs ! nat (int (length xs) + i))
      else Inl IndexError)"

text \<open>
  \<open>abs(discpoints).max()\<close>: \<open>discpoints\<close> is the array of the rows \<open>(re, im)\<close>, the
  absolute value is taken entry by entry and the maximum runs over all the entries; numpy
  raises ValueError on the empty array.
\<close>

definition abs_max :: "point list \<Rightarrow> error + rat" where
  "abs_max discpoints =
     (case concat (map (\<lambda>(x, y). [\<bar>x\<bar>, \<bar>y\<bar>]) discpoints) of
        [] \<Rightarrow> Inl ValueError
      | v # vs \<Rightarrow> Inr (fold max vs v))"

definition configuration :: "point list \<Rightarrow> error + point list" where
  "configuration discpoints =
     ebind (abs_max discpoints) (\<lambda>m.
       (let added_points = 3 * m + 1
        in Inr (discpoints @
                [(added_points, 0), (- added_points, 0), (0, added_points), (0, - added_points)])))"

text \<open>The body of \<open>for rv in V.ridge_vertices\<close>: the segment appended to \<open>res\<close>, if any.\<close>

definition ridge_segment :: "voronoi \<Rightarrow> int list \<Rightarrow> error + (point \<times> point) list" where
  "ridge_segment V rv =
     (if - 1 \<in> set rv then Inr []
      else
        ebind (py_index rv 0) (\<lambda>a.
        ebind (py_index (vertices V) a) (\<lambda>p1.
        ebind (py_index rv 1) (\<lambda>b.
        ebind (py_index (vertices V) b) (\<lambda>p2.
          Inr [(p1, p2)])))))"

text \<open>\<open>Voronoi\<close> is the external diagram constructor; it may raise.\<close>

definition segments ::
  "(point list \<Rightarrow> error + voronoi) \<Rightarrow> point list \<Rightarrow> error + (point \<times> point) list" where
  "segments Voronoi points =
     ebind (configuration points) (\<lambda>conf.
     ebind (Voronoi conf) (\<lambda>V.
     ebind (emap (ridge_segment V) (ridge_vertices V)) (\<lambda>res.
       Inr (concat res))))"

subsection \<open>braid_in_segment: matching the strand ends with the exact roots\<close>








subsection \<open>fundamental_group: assembling the presentation\<close>

text \<open>
  A finitely presented group \<open>F/rels\<close> over the free group \<open>F = FreeGroup(n)\<close>: the
  number of generators and the relators, as words of signed generator indices.
\<close>

record presentation =
  generators :: nat
  relators :: "int list list"

text \<open>
  Modelled from the spec: the element constructor \<open>F([...])\<close> of the free group of rank
  \<open>n\<close>, which belongs to the group-theory collaborator. A word whose index is zero or
  beyond the rank is a GroupConstructionError. Free reduction is left to the collaborator.
\<close>

definition FreeGroup :: "nat \<Rightarrow> int list \<Rightarrow> error + int list" where
  "FreeGroup n w =
     (if \<forall>a \<in> set w. a \<noteq> 0 \<and> \<bar>a\<bar> \<le> int n then Inr w else Inl GroupConstructionError)"

text \<open>\<open>flatten(segs)\<close> and \<open>list(set(...))\<close>: the distinct end points of the segments.\<close>

definition flatten :: "('a \<times> 'a) list \<Rightarrow> 'a list" where
  "flatten segs = concat (map (\<lambda>(p, q). [p, q]) segs)"

text \<open>\<open>vertices.index(v)\<close>: the first position of \<open>v\<close>, ValueError when it is absent.\<close>

fun index :: "'a list \<Rightarrow> 'a \<Rightarrow> error + nat" where
  "index [] v = Inl ValueError"
| "index (x # xs) v = (if x = v then Inr 0 else ebind (index xs v) (\<lambda>i. Inr (i + 1)))"

text \<open>
  Lines 412 to 421 for one computed braid: the \<open>d\<close> relators \<open>w1/w2\<close>. \<open>action k b\<close>
  is the Tietze list of \<open>Faux([k + 1]) * b.inverse()\<close>, the action of the braid group on
  the free group, a primitive of the collaborator.
\<close>

definition segment_relators ::
  "(nat \<Rightarrow> int list \<Rightarrow> int list) \<Rightarrow> nat \<Rightarrow> point list \<Rightarrow> (point \<times> point) \<times> int list
     \<Rightarrow> error + int list list" where
  "segment_relators action d verts = (\<lambda>(seg, b).
     ebind (index verts (fst seg)) (\<lambda>i.
     ebind (index verts (snd seg)) (\<lambda>j.
       emap (\<lambda>k.
         ebind (FreeGroup (d * length verts)
                  (map (\<lambda>a. sgn a * int d * int i + a) (action k b))) (\<lambda>w1.
         ebind (FreeGroup (d * length verts) [int d * int j + (int k + 1)]) (\<lambda>w2.
           Inr (w1 @ map uminus (rev w2))))) [0..<d])))"

text \<open>
  \<open>fundamental_group\<close> from line 401 on. The degree \<open>d\<close> and the discriminant points
  \<open>disc\<close> come from the polynomial algebra of lines 394 to 401, \<open>braid_of seg\<close> is what
  the parallel call of \<open>braid_in_segment\<close> gives for a segment, and \<open>simplify\<close> is the
  presentation simplifier: all are parameters. \<open>list(set(...))\<close> keeps one copy of
  every vertex; its order is the one of \<open>remdups\<close> here.
\<close>

definition fundamental_group ::
  "(point list \<Rightarrow> error + voronoi) \<Rightarrow> (point \<times> point \<Rightarrow> error + int list)
     \<Rightarrow> (nat \<Rightarrow> int list \<Rightarrow> int list) \<Rightarrow> (presentation \<Rightarrow> presentation)
     \<Rightarrow> nat \<Rightarrow> point list \<Rightarrow> bool \<Rightarrow> bool \<Rightarrow> error + presentation" where
  "fundamental_group Voronoi braid_of action simplify d disc simplified projective =
     ebind (segments Voronoi disc) (\<lambda>segs.
       (let verts = remdups (flatten segs); n = d * length verts in
        ebind (if projective then ebind (FreeGroup n (map int [1..<d + 1])) (\<lambda>w. Inr [w])
               else Inr []) (\<lambda>rels0.
        ebind (emap (\<lambda>seg. ebind (braid_of seg) (\<lambda>b. Inr (seg, b))) segs) (\<lambda>braidscomputed.
        ebind (emap (segment_relators action d verts) braidscomputed) (\<lambda>rs.
          (let G = \<lparr>generators = n, relators = rels0 @ concat rs\<rparr>
           in Inr (if simplified then simplify G else G)))))))"

subsection \<open>Notions used to state the properties\<close>

text \<open>
  The family keeps its relative order: between any two consecutive common times, one point
  is before another one (real part first, then imaginary part) at the first time exactly
  when it is at the second.
\<close>

definition keeps_order :: "point list list \<Rightarrow> bool" where
  "keeps_order tp \<longleftrightarrow>
     (\<forall>i \<in> set [0..<length (hd tp) - 1]. \<forall>r \<in> set tp. \<forall>r' \<in> set tp.
        (r ! i < r' ! i) = (r ! (i + 1) < r' ! (i + 1)))"

text \<open>
  The point of the strand at position \<open>k\<close> of the sorted slice at the parameter \<open>t\<close>,
  both coordinates interpolated linearly between the two ends of the slice.
\<close>

definition point_at :: "point list \<Rightarrow> point list \<Rightarrow> nat \<Rightarrow> rat \<Rightarrow> point" where
  "point_at l1 l2 k t =
     (fst (l1 ! k) * (1 - t) + t * fst (l2 ! k), snd (l1 ! k) * (1 - t) + t * snd (l2 ! k))"

text \<open>
  No two strands coincide at an interpolated crossing time: in every slice, the two
  strands of every recorded crossing are at different points at the time of the crossing.
\<close>

definition never_coincide :: "point list list \<Rightarrow> bool" where
  "never_coincide tp \<longleftrightarrow>
     (\<forall>i \<in> set [0..<length (hd tp) - 1].
        case cruces_of (map fst (slice_columns tp i)) (map snd (slice_columns tp i)) of
          Inl e \<Rightarrow> True
        | Inr cruces \<Rightarrow>
            (\<forall>(t, k, j, s) \<in> set cruces.
               point_at (map fst (slice_columns tp i)) (map snd (slice_columns tp i)) k t
               \<noteq> point_at (map fst (slice_columns tp i)) (map snd (slice_columns tp i)) j t))"

text \<open>
  The resolution of simultaneous crossings as the specification words it: while a
  crossing is pending, one whose distance under the current permutation is minimal is
  taken, its signed generator is emitted, the permutation is updated by the transposition
  of its two strands, and the rest is resolved under the new permutation. For the
  crossing of the strands \<open>k < j\<close> the distance is \<open>P(j + 1) - P(k + 1)\<close>, the generator
  is the least of the two positions \<open>P(k + 1)\<close> and \<open>P(j + 1)\<close> with the sign of the
  crossing, and the new permutation first exchanges \<open>k + 1\<close> and \<open>j + 1\<close> and then
  applies \<open>P\<close>.
\<close>

inductive greedy :: "perm \<Rightarrow> cruce list \<Rightarrow> int list \<Rightarrow> perm \<Rightarrow> bool" where
  greedy_done: "greedy P [] [] P"
| greedy_pick:
    "(t, k, j, s) \<in> set pending \<Longrightarrow>
     \<forall>(t', k', j', s') \<in> set pending.
        int (P (j + 1)) - int (P (k + 1)) \<le> int (P (j' + 1)) - int (P (k' + 1)) \<Longrightarrow>
     greedy (\<lambda>x. P (if x = k + 1 then j + 1 else if x = j + 1 then k + 1 else x))
       (remove1 (t, k, j, s) pending) w P' \<Longrightarrow>
     greedy P pending (s * int (min (P (k + 1)) (P (j + 1))) # w) P'"

text \<open>
  The processing of the crossings of a slice in increasing order of their time: the
  pending crossings of the least time are resolved together, then the others.
\<close>

inductive in_time_order :: "perm \<Rightarrow> cruce list \<Rightarrow> int list \<Rightarrow> bool" where
  in_time_done: "in_time_order P [] []"
| in_time_group:
    "pending \<noteq> [] \<Longrightarrow>
     t0 = Min (fst ` set pending) \<Longrightarrow>
     greedy P (filter (\<lambda>c. fst c = t0) pending) w1 P' \<Longrightarrow>
     in_time_order P' (filter (\<lambda>c. fst c \<noteq> t0) pending) w2 \<Longrightarrow>
     in_time_order P pending (w1 @ w2)"

text \<open>\<open>P\<close> is a permutation of \<open>1..d\<close>.\<close>

definition perm_on :: "nat \<Rightarrow> perm \<Rightarrow> bool" where
  "perm_on d P \<longleftrightarrow> inj_on P {1..d} \<and> P ` {1..d} \<subseteq> {1..d}"

text \<open>A braid generator of the braid group on \<open>d\<close> strands: a nonzero index of absolute value at most \<open>d - 1\<close>.\<close>

definition generator_ok :: "nat \<Rightarrow> int \<Rightarrow> bool" where
  "generator_ok d g \<longleftrightarrow> g \<noteq> 0 \<and> 1 \<le> \<bar>g\<bar> \<and> \<bar>g\<bar> \<le> int d - 1"







section \<open>Verification\<close>

subsection \<open>Termination of the merging loop\<close>

lemma emap_Inr_iff: "emap f xs = Inr ys \<longleftrightarrow> list_all2 (\<lambda>x y. f x = Inr y) xs ys"
proof (induction xs arbitrary: ys)
  case Nil
  then show ?case by auto
next
  case (Cons x xs)
  show ?case
  proof (cases "f x")
    case (Inl e)
    then show ?thesis by (cases ys) auto
  next
    case fx: (Inr y)
    show ?thesis
    proof (cases "emap f xs")
      case (Inl e)
      with Cons.IH have "\<And>zs. \<not> list_all2 (\<lambda>x y. f x = Inr y) xs zs" by simp
      with fx Inl show ?thesis by (cases ys) auto
    next
      case (Inr zs)
      with Cons.IH have "\<And>zs'. list_all2 (\<lambda>x y. f x = Inr y) xs zs' \<longleftrightarrow> zs = zs'" by auto
      with fx Inr show ?thesis by (cases ys) auto
    qed
  qed
qed

lemma fold_min_in_set: "fold min xs (x::rat) \<in> set (x # xs)"
proof -
  have "Min (set (x # xs)) \<in> set (x # xs)" by (rule Min_in) simp_all
  then show ?thesis by (simp only: Min.set_eq_fold)
qed

lemma fold_min_le: "z \<in> set (x # xs) \<Longrightarrow> fold min xs (x::rat) \<le> z"
proof -
  assume "z \<in> set (x # xs)"
  then have "Min (set (x # xs)) \<le> z" by (intro Min_le) simp_all
  then show ?thesis by (simp only: Min.set_eq_fold)
qed

lemma next_time_attained:
  assumes "next_time L st = Inr i"
  shows "\<exists>(Lk, idx, tp) \<in> set (zip L st). idx < length Lk \<and> fst (Lk ! idx) = i"
proof -
  from assms obtain ts where ts:
    "emap (\<lambda>(Lk, idx, tp). ebind (py_nth Lk idx) (\<lambda>s. Inr (fst s))) (zip L st) = Inr ts"
    and m: "py_min ts = Inr i"
    by (auto simp: next_time_def ebind_def split: sum.splits)
  from m have "i \<in> set ts"
    using fold_min_in_set by (cases ts) auto
  then obtain n where n: "n < length ts" "ts ! n = i" by (auto simp: in_set_conv_nth)
  from ts have la: "list_all2 (\<lambda>x y. (case x of (Lk, idx, tp) \<Rightarrow> ebind (py_nth Lk idx) (\<lambda>s. Inr (fst s))) = Inr y)
      (zip L st) ts" by (simp add: emap_Inr_iff)
  then have len: "length (zip L st) = length ts" by (rule list_all2_lengthD)
  from la n have "(case zip L st ! n of (Lk, idx, tp) \<Rightarrow> ebind (py_nth Lk idx) (\<lambda>s. Inr (fst s))) = Inr i"
    by (auto dest: list_all2_nthD2)
  moreover obtain Lk idx tp where z: "zip L st ! n = (Lk, idx, tp)" by (cases "zip L st ! n") auto
  ultimately have "idx < length Lk \<and> fst (Lk ! idx) = i"
    by (auto simp: ebind_def py_nth_def split: if_splits)
  moreover have "(Lk, idx, tp) \<in> set (zip L st)"
    using z n(1) len by (metis nth_mem)
  ultimately show ?thesis by blast
qed

lemma strand_step_idx:
  "strand_step i (Lk, idx, tp) = Inr (idx', tp') \<Longrightarrow>
   idx < length Lk \<and> (if fst (Lk ! idx) > i then idx' = idx else idx' = idx + 1)"
  by (auto simp: strand_step_def ebind_def py_nth_def split: if_splits prod.splits sum.splits)

lemma step_remaining_le:
  "emap (strand_step i) (zip L st) = Inr st' \<Longrightarrow> remaining L st' \<le> remaining L st"
proof (induction L arbitrary: st st')
  case Nil
  then show ?case by (simp add: remaining_def)
next
  case (Cons Lk L)
  show ?case
  proof (cases st)
    case Nil
    with Cons.prems show ?thesis by (simp add: remaining_def)
  next
    case (Cons s st0)
    obtain idx tp where s: "s = (idx, tp)" by (cases s)
    from Cons.prems Cons s obtain idx' tp' st0' where
      a: "strand_step i (Lk, idx, tp) = Inr (idx', tp')"
      and b: "emap (strand_step i) (zip L st0) = Inr st0'"
      and c: "st' = (idx', tp') # st0'"
      by (auto split: sum.splits)
    from Cons.IH[OF b] have "remaining L st0' \<le> remaining L st0" .
    moreover from strand_step_idx[OF a] have "length Lk - idx' \<le> length Lk - idx"
      by (auto split: if_splits)
    ultimately show ?thesis using c Cons s by (simp add: remaining_def)
  qed
qed

lemma step_remaining_less:
  "emap (strand_step i) (zip L st) = Inr st' \<Longrightarrow>
   \<exists>(Lk, idx, tp) \<in> set (zip L st). idx < length Lk \<and> fst (Lk ! idx) \<le> i \<Longrightarrow>
   remaining L st' < remaining L st"
proof (induction L arbitrary: st st')
  case Nil
  then show ?case by simp
next
  case (Cons Lk L)
  show ?case
  proof (cases st)
    case Nil
    with Cons.prems show ?thesis by simp
  next
    case (Cons s st0)
    obtain idx tp where s: "s = (idx, tp)" by (cases s)
    from Cons.prems(1) Cons s obtain idx' tp' st0' where
      a: "strand_step i (Lk, idx, tp) = Inr (idx', tp')"
      and b: "emap (strand_step i) (zip L st0) = Inr st0'"
      and c: "st' = (idx', tp') # st0'"
      by (auto split: sum.splits)
    have le0: "remaining L st0' \<le> remaining L st0" by (rule step_remaining_le[OF b])
    from strand_step_idx[OF a] have le1: "length Lk - idx' \<le> length Lk - idx"
      and idx: "idx < length Lk" by (auto split: if_splits)
    from Cons.prems(2) Cons s consider
      (here) "idx < length Lk \<and> fst (Lk ! idx) \<le> i"
      | (there) "\<exists>(Lk, idx, tp) \<in> set (zip L st0). idx < length Lk \<and> fst (Lk ! idx) \<le> i"
      by auto
    then show ?thesis
    proof cases
      case here
      with strand_step_idx[OF a] have "idx' = idx + 1" by (auto split: if_splits)
      with idx have "length Lk - idx' < length Lk - idx" by simp
      with le0 show ?thesis using c Cons s by (simp add: remaining_def)
    next
      case there
      from Cons.IH[OF b there] have "remaining L st0' < remaining L st0" .
      with le1 show ?thesis using c Cons s by (simp add: remaining_def)
    qed
  qed
qed

termination merge_loop
proof (relation "measure (\<lambda>(L, st). remaining L st)")
  show "wf (measure (\<lambda>(L, st). remaining L st))" by simp
next
  fix L :: "strand list" and st :: "(nat \<times> point list) list" and i st'
  assume nt: "next_time L st = Inr i" and "i < 1"
    and st': "emap (strand_step i) (zip L st) = Inr st'"
  from next_time_attained[OF nt]
  have "\<exists>(Lk, idx, tp) \<in> set (zip L st). idx < length Lk \<and> fst (Lk ! idx) \<le> i"
    by fastforce
  from step_remaining_less[OF st' this]
  show "((L, st'), (L, st)) \<in> measure (\<lambda>(L, st). remaining L st)" by simp
qed

text \<open>The defining equations of the loops are unfolded by hand, one step at a time.\<close>

declare merge_loop.simps [simp del] resolve.simps [simp del] process.simps [simp del]

subsection \<open>Crossings of a slice\<close>

lemma emap_all_Nil: "(\<forall>x \<in> set xs. f x = Inr []) \<Longrightarrow> emap f xs = Inr (map (\<lambda>x. []) xs)"
  by (induction xs) auto

lemma index_pairs_iff: "(j, k) \<in> set (index_pairs n) \<longleftrightarrow> k < j \<and> j < n"
  by (force simp: index_pairs_def)

lemma cruces_of_no_flip:
  assumes "\<forall>j < length l2. \<forall>k < j. \<not> l2 ! j < l2 ! k"
  shows "cruces_of l1 l2 = Inr []"
proof -
  have "\<forall>p \<in> set (index_pairs (length l2)). cruce_at l1 l2 p = Inr []"
  proof
    fix p assume p: "p \<in> set (index_pairs (length l2))"
    obtain j k where jk: "p = (j, k)" by (cases p)
    with p have "k < j" "j < length l2" by (simp_all add: index_pairs_iff)
    with assms have "\<not> l2 ! j < l2 ! k" by blast
    then show "cruce_at l1 l2 p = Inr []" by (simp add: cruce_at_def jk)
  qed
  then have "emap (cruce_at l1 l2) (index_pairs (length l2))
      = Inr (map (\<lambda>x. []) (index_pairs (length l2)))" by (rule emap_all_Nil)
  then show ?thesis by (simp add: cruces_of_def ebind_def)
qed

lemma slice_columns_sorted: "sorted (slice_columns tp i)"
  by (simp add: slice_columns_def)

lemma slice_columns_set:
  "set (slice_columns tp i) = set (zip (map (\<lambda>r. r ! i) tp) (map (\<lambda>r. r ! (i + 1)) tp))"
  by (simp add: slice_columns_def)

lemma slice_columns_length: "length (slice_columns tp i) = length tp"
  by (simp add: slice_columns_def)

lemma slice_columns_row:
  assumes "m < length tp"
  shows "\<exists>r \<in> set tp. slice_columns tp i ! m = (r ! i, r ! (i + 1))"
proof -
  from assms have "slice_columns tp i ! m \<in> set (slice_columns tp i)"
    by (simp add: slice_columns_length)
  then have "slice_columns tp i ! m \<in> set (zip (map (\<lambda>r. r ! i) tp) (map (\<lambda>r. r ! (i + 1)) tp))"
    by (simp only: slice_columns_set)
  then obtain n where n: "n < length tp"
    "slice_columns tp i ! m = (map (\<lambda>r. r ! i) tp ! n, map (\<lambda>r. r ! (i + 1)) tp ! n)"
    by (auto simp: in_set_zip)
  then have "slice_columns tp i ! m = (tp ! n ! i, tp ! n ! (i + 1))" by simp
  moreover have "tp ! n \<in> set tp" using n(1) by simp
  ultimately show ?thesis by blast
qed

lemma cruce_at_cases:
  "cruce_at l1 l2 (j, k) = Inr cs \<Longrightarrow>
   (cs = [] \<and> \<not> l2 ! j < l2 ! k) \<or>
   (l2 ! j < l2 ! k \<and> fst (l2 ! k) - fst (l1 ! k) + fst (l1 ! j) - fst (l2 ! j) \<noteq> 0 \<and>
    cs = [((fst (l1 ! j) - fst (l1 ! k)) / (fst (l2 ! k) - fst (l1 ! k) + fst (l1 ! j) - fst (l2 ! j)), k, j,
           - cmp (snd (l1 ! k) * (1 - (fst (l1 ! j) - fst (l1 ! k)) / (fst (l2 ! k) - fst (l1 ! k) + fst (l1 ! j) - fst (l2 ! j)))
                  + (fst (l1 ! j) - fst (l1 ! k)) / (fst (l2 ! k) - fst (l1 ! k) + fst (l1 ! j) - fst (l2 ! j)) * snd (l2 ! k))
                 (snd (l1 ! j) * (1 - (fst (l1 ! j) - fst (l1 ! k)) / (fst (l2 ! k) - fst (l1 ! k) + fst (l1 ! j) - fst (l2 ! j)))
                  + (fst (l1 ! j) - fst (l1 ! k)) / (fst (l2 ! k) - fst (l1 ! k) + fst (l1 ! j) - fst (l2 ! j)) * snd (l2 ! j)))])"
  by (auto simp: cruce_at_def Let_def split: if_splits)

lemma cruces_of_member:
  assumes "cruces_of l1 l2 = Inr cs" and "c \<in> set cs"
  shows "\<exists>j k. k < j \<and> j < length l2 \<and> cruce_at l1 l2 (j, k) = Inr [c]"
proof -
  from assms(1) obtain css where css: "emap (cruce_at l1 l2) (index_pairs (length l2)) = Inr css"
    and cs: "cs = concat css"
    by (auto simp: cruces_of_def ebind_def split: sum.splits)
  from css have la: "list_all2 (\<lambda>p y. cruce_at l1 l2 p = Inr y) (index_pairs (length l2)) css"
    by (simp add: emap_Inr_iff)
  from assms(2) cs obtain xs where xs: "xs \<in> set css" "c \<in> set xs" by auto
  from xs(1) obtain m where "m < length css" "css ! m = xs" by (auto simp: in_set_conv_nth)
  with xs(2) have m: "m < length css" "c \<in> set (css ! m)" by simp_all
  from la have len: "length (index_pairs (length l2)) = length css" by (rule list_all2_lengthD)
  obtain j k where jk: "index_pairs (length l2) ! m = (j, k)"
    by (cases "index_pairs (length l2) ! m")
  from la m(1) have at: "cruce_at l1 l2 (j, k) = Inr (css ! m)"
    using jk by (auto dest: list_all2_nthD2)
  have "(j, k) \<in> set (index_pairs (length l2))" using jk m(1) len by (metis nth_mem)
  then have r: "k < j" "j < length l2" by (simp_all add: index_pairs_iff)
  from cruce_at_cases[OF at] m(2) have "css ! m = [c]" by auto
  with at r show ?thesis by auto
qed

lemma crossing_time_real_parts:
  fixes a b c e :: rat
  assumes "c - a + b - e \<noteq> 0"
  shows "a * (1 - (b - a) / (c - a + b - e)) + (b - a) / (c - a + b - e) * c
       = b * (1 - (b - a) / (c - a + b - e)) + (b - a) / (c - a + b - e) * e"
proof -
  define t where "t = (b - a) / (c - a + b - e)"
  have td: "t * (c - a + b - e) = b - a" using assms by (simp add: t_def)
  have "a * (1 - t) + t * c - (b * (1 - t) + t * e) = (a - b) + t * (c - a + b - e)"
    by (simp add: algebra_simps)
  also have "\<dots> = 0" using td by simp
  finally show ?thesis by (simp add: t_def)
qed

lemma merge_loop_length:
  "length st = length L \<Longrightarrow> merge_loop L st = Inr r \<Longrightarrow> length r = length L"
proof (induction L st rule: merge_loop.induct)
  case (1 L st)
  from "1.prems"(2) obtain i where i: "next_time L st = Inr i"
    by (subst (asm) merge_loop.simps) (auto split: sum.splits)
  show ?case
  proof (cases "i < 1")
    case True
    with "1.prems"(2) i obtain st' where st': "emap (strand_step i) (zip L st) = Inr st'"
      and r: "merge_loop L st' = Inr r"
      by (subst (asm) merge_loop.simps) (auto split: sum.splits)
    from st' have "length st' = length (zip L st)"
      by (auto simp: emap_Inr_iff dest: list_all2_lengthD)
    with "1.prems"(1) have "length st' = length L" by simp
    from "1.IH"[OF i True st' this r] show ?thesis .
  next
    case False
    with "1.prems"(2) i have "r = st" by (subst (asm) merge_loop.simps) auto
    with "1.prems"(1) show ?thesis by simp
  qed
qed

lemma totalpoints_length: "totalpoints L = Inr tp \<Longrightarrow> length tp = length L"
proof -
  assume "totalpoints L = Inr tp"
  then obtain st where st: "merge_loop L (map (\<lambda>a. (1, [snd (hd a)])) L) = Inr st"
    and tp: "tp = map (\<lambda>(Lj, idx, tp). tp @ [snd (last Lj)]) (zip L st)"
    by (auto simp: totalpoints_def ebind_def split: sum.splits)
  from merge_loop_length[OF _ st] have "length st = length L" by simp
  with tp show ?thesis by simp
qed

subsection \<open>Segments of the Voronoi diagram\<close>






subsection \<open>followstrand\<close>

lemma followstrand_retry:
  "kernel_call coefs cp cpm prec = Inl e \<Longrightarrow>
   followstrand coefs cp cpm prec = followstrand coefs cp cpm (2 * prec)"
  by (subst followstrand.simps) simp

lemma followstrand_success:
  "kernel_call coefs cp cpm prec = Inr pts \<Longrightarrow> followstrand coefs cp cpm prec = Some pts"
  by (subst followstrand.simps) simp

lemma followstrand_after_failures:
  "(\<forall>m<n. \<exists>e. kernel_call coefs cp cpm (2 ^ m * prec) = Inl e) \<Longrightarrow>
   kernel_call coefs cp cpm (2 ^ n * prec) = Inr pts \<Longrightarrow>
   followstrand coefs cp cpm prec = Some pts"
proof (induction n arbitrary: prec)
  case 0
  then show ?case by (simp add: followstrand_success)
next
  case (Suc n)
  from Suc.prems(1) obtain e where e: "kernel_call coefs cp cpm prec = Inl e"
    by (metis power_0 mult_1 zero_less_Suc)
  have "\<forall>m<n. \<exists>e. kernel_call coefs cp cpm (2 ^ m * (2 * prec)) = Inl e"
  proof (intro allI impI)
    fix m assume "m < n"
    then have "Suc m < Suc n" by simp
    with Suc.prems(1) obtain e' where "kernel_call coefs cp cpm (2 ^ Suc m * prec) = Inl e'"
      by blast
    then show "\<exists>e. kernel_call coefs cp cpm (2 ^ m * (2 * prec)) = Inl e"
      by (simp add: mult.assoc mult.left_commute)
  qed
  moreover have "kernel_call coefs cp cpm (2 ^ n * (2 * prec)) = Inr pts"
    using Suc.prems(2) by (simp add: mult.assoc mult.left_commute)
  ultimately have "followstrand coefs cp cpm (2 * prec) = Some pts"
    by (rule Suc.IH)
  with e show ?case by (simp add: followstrand_retry)
qed

lemma followstrand_returns_kernel_result:
  "followstrand coefs cp cpm prec = Some pts \<Longrightarrow>
   \<exists>n. kernel_call coefs cp cpm (2 ^ n * prec) = Inr pts \<and>
       (\<forall>m<n. \<exists>e. kernel_call coefs cp cpm (2 ^ m * prec) = Inl e)"
proof (induction rule: followstrand.raw_induct[rotated 1, consumes 1])
  case (1 f coefs cp cpm prec pts)
  show ?case
  proof (cases "kernel_call coefs cp cpm prec")
    case (Inr p)
    with 1(2) have "p = pts" by simp
    with Inr have "kernel_call coefs cp cpm (2 ^ 0 * prec) = Inr pts" by simp
    then show ?thesis by (metis not_less_zero)
  next
    case (Inl e)
    with 1(2) have "f coefs cp cpm (2 * prec) = Some pts" by simp
    from 1(1)[OF this] obtain n where n: "kernel_call coefs cp cpm (2 ^ n * (2 * prec)) = Inr pts"
      "\<forall>m<n. \<exists>e. kernel_call coefs cp cpm (2 ^ m * (2 * prec)) = Inl e" by blast
    have a: "kernel_call coefs cp cpm (2 ^ Suc n * prec) = Inr pts"
      using n(1) by (simp add: mult.assoc mult.left_commute)
    have b: "\<forall>m<Suc n. \<exists>e. kernel_call coefs cp cpm (2 ^ m * prec) = Inl e"
    proof (intro allI impI)
      fix m assume m: "m < Suc n"
      show "\<exists>e. kernel_call coefs cp cpm (2 ^ m * prec) = Inl e"
      proof (cases m)
        case 0
        then show ?thesis using Inl by simp
      next
        case (Suc k)
        with m have "k < n" by simp
        with n(2) obtain e' where "kernel_call coefs cp cpm (2 ^ k * (2 * prec)) = Inl e'" by blast
        then show ?thesis using Suc by (simp add: mult.assoc mult.left_commute)
      qed
    qed
    from a b show ?thesis by blast
  qed
qed

lemma followstrand_diverges:
  "(\<forall>n. \<exists>e. kernel_call coefs cp cpm (2 ^ n * prec) = Inl e) \<Longrightarrow>
   followstrand coefs cp cpm prec = None"
proof (rule ccontr)
  assume a: "\<forall>n. \<exists>e. kernel_call coefs cp cpm (2 ^ n * prec) = Inl e"
  assume "followstrand coefs cp cpm prec \<noteq> None"
  then obtain pts where "followstrand coefs cp cpm prec = Some pts" by auto
  from followstrand_returns_kernel_result[OF this] obtain n where
    "kernel_call coefs cp cpm (2 ^ n * prec) = Inr pts" by blast
  with a show False by (metis sum.distinct(1))
qed

text \<open>
  Claim C4. Whenever the continuation kernel called inside \<open>followstrand\<close> fails, for
  whatever reason, \<open>followstrand\<close> starts the whole continuation again with the working
  precision doubled, and nothing bounds the number of retries: after any number \<open>n\<close> of
  failed attempts at the precisions \<open>prec, 2 prec, ..., 2^(n-1) prec\<close> the attempt at
  \<open>2^n prec\<close> is made and its result returned. A result of \<open>followstrand\<close> is always
  the result of a successful kernel call, so a failure of the kernel never reaches the
  caller; if the kernel fails at every precision, \<open>followstrand\<close> does not return.
\<close>

theorem followstrand_retries_doubling_precision:
  "(\<forall>e. kernel_call coefs cp cpm prec = Inl e \<longrightarrow>
        followstrand coefs cp cpm prec = followstrand coefs cp cpm (2 * prec))
   \<and> (\<forall>n pts. (\<forall>m<n. \<exists>e. kernel_call coefs cp cpm (2 ^ m * prec) = Inl e)
          \<and> kernel_call coefs cp cpm (2 ^ n * prec) = Inr pts
        \<longrightarrow> followstrand coefs cp cpm prec = Some pts)
   \<and> (\<forall>pts. followstrand coefs cp cpm prec = Some pts \<longrightarrow>
        (\<exists>n. kernel_call coefs cp cpm (2 ^ n * prec) = Inr pts
           \<and> (\<forall>m<n. \<exists>e. kernel_call coefs cp cpm (2 ^ m * prec) = Inl e)))
   \<and> ((\<forall>n. \<exists>e. kernel_call coefs cp cpm (2 ^ n * prec) = Inl e) \<longrightarrow>
        followstrand coefs cp cpm prec = None)"
proof (intro conjI allI impI)
  fix e assume "kernel_call coefs cp cpm prec = Inl e"
  then show "followstrand coefs cp cpm prec = followstrand coefs cp cpm (2 * prec)"
    by (rule followstrand_retry)
next
  fix n pts
  assume a: "(\<forall>m<n. \<exists>e. kernel_call coefs cp cpm (2 ^ m * prec) = Inl e)
          \<and> kernel_call coefs cp cpm (2 ^ n * prec) = Inr pts"
  from a have a1: "\<forall>m<n. \<exists>e. kernel_call coefs cp cpm (2 ^ m * prec) = Inl e" ..
  from a have a2: "kernel_call coefs cp cpm (2 ^ n * prec) = Inr pts" ..
  from a1 a2 show "followstrand coefs cp cpm prec = Some pts"
    by (rule followstrand_after_failures)
next
  fix pts assume "followstrand coefs cp cpm prec = Some pts"
  then show "\<exists>n. kernel_call coefs cp cpm (2 ^ n * prec) = Inr pts
           \<and> (\<forall>m<n. \<exists>e. kernel_call coefs cp cpm (2 ^ m * prec) = Inl e)"
    by (rule followstrand_returns_kernel_result)
next
  assume "\<forall>n. \<exists>e. kernel_call coefs cp cpm (2 ^ n * prec) = Inl e"
  then show "followstrand coefs cp cpm prec = None"
    by (rule followstrand_diverges)
qed

text \<open>
  A kernel that fails at the precisions 53 and 106 and succeeds at 212, and one that
  always fails.
\<close>

theorem followstrand_retries_witness:
  "followstrand (\<lambda>p. p) (\<lambda>c. Inl ()) (\<lambda>c p. if p < 200 then Inl () else Inr [p]) 53 = Some [212]
   \<and> followstrand (\<lambda>p. p) (\<lambda>c. Inl ()) (\<lambda>c p. if p < 200 then Inl () else Inr [p]) 53
       = followstrand (\<lambda>p. p) (\<lambda>c. Inl ()) (\<lambda>c p. if p < 200 then Inl () else Inr [p]) 106
   \<and> followstrand (\<lambda>p. p) (\<lambda>c. Inl ()) (\<lambda>c p. (Inl () :: unit + nat list)) 53 = None"
proof -
  let ?cpm = "\<lambda>(c::nat) p. if p < 200 then (Inl () :: unit + nat list) else Inr [p]"
  let ?cp = "\<lambda>c::nat. (Inl () :: unit + nat list)"
  have k0: "kernel_call (\<lambda>p. p) ?cp ?cpm 53 = Inl ()" by (simp add: kernel_call_def)
  have k1: "kernel_call (\<lambda>p. p) ?cp ?cpm (2 ^ 1 * 53) = Inl ()" by (simp add: kernel_call_def)
  have k2: "kernel_call (\<lambda>p. p) ?cp ?cpm (2 ^ 2 * 53) = Inr [212]" by (simp add: kernel_call_def)
  have fails: "\<forall>m<2. \<exists>e. kernel_call (\<lambda>p. p) ?cp ?cpm (2 ^ m * 53) = Inl e"
  proof (intro allI impI)
    fix m :: nat assume "m < 2"
    then have "m = 0 \<or> m = 1" by auto
    then show "\<exists>e. kernel_call (\<lambda>p. p) ?cp ?cpm (2 ^ m * 53) = Inl e"
      using k0 k1 by auto
  qed
  note t = followstrand_retries_doubling_precision [of "\<lambda>p. p" ?cp ?cpm 53]
  from t have t1: "\<forall>e. kernel_call (\<lambda>p. p) ?cp ?cpm 53 = Inl e \<longrightarrow>
      followstrand (\<lambda>p. p) ?cp ?cpm 53 = followstrand (\<lambda>p. p) ?cp ?cpm (2 * 53)" by (rule conjunct1)
  from t have t2: "\<forall>n pts. (\<forall>m<n. \<exists>e. kernel_call (\<lambda>p. p) ?cp ?cpm (2 ^ m * 53) = Inl e)
          \<and> kernel_call (\<lambda>p. p) ?cp ?cpm (2 ^ n * 53) = Inr pts
        \<longrightarrow> followstrand (\<lambda>p. p) ?cp ?cpm 53 = Some pts" by (rule conjunct1[OF conjunct2])
  from t2[rule_format, of 2 "[212]"] fails k2
  have a: "followstrand (\<lambda>p. p) ?cp ?cpm 53 = Some [212]" by simp
  from t1[rule_format, OF k0]
  have b: "followstrand (\<lambda>p. p) ?cp ?cpm 53 = followstrand (\<lambda>p. p) ?cp ?cpm (2 * 53)" .
  let ?bad = "\<lambda>(c::nat) (p::nat). (Inl () :: unit + nat list)"
  have allfail: "\<forall>n. \<exists>e. kernel_call (\<lambda>p. p) ?cp ?bad (2 ^ n * 53) = Inl e"
    by (simp add: kernel_call_def)
  note t4 = followstrand_retries_doubling_precision [of "\<lambda>p. p" ?cp ?bad 53,
      THEN conjunct2, THEN conjunct2, THEN conjunct2]
  from t4 allfail have c: "followstrand (\<lambda>p. p) ?cp ?bad 53 = None" by (rule mp)
  from a b c show ?thesis by simp
qed

subsection \<open>braid_from_piecewise: the order in which the crossings are resolved\<close>

lemma crosses_of_mset:
  "mset (crosses_of P cs) = image_mset (\<lambda>(t, k, j, s). (distance P k j, k, j, s)) (mset cs)"
  by (simp add: crosses_of_def)

lemma recompute_after_crosses:
  assumes "mset cl = image_mset (\<lambda>(t, k, j, s). (distance P k j, k, j, s)) (mset cs)"
  shows "mset (recompute P' cl) = image_mset (\<lambda>(t, k, j, s). (distance P' k j, k, j, s)) (mset cs)"
proof -
  have "mset (recompute P' cl) = image_mset (\<lambda>(d, k, j, s). (distance P' k j, k, j, s)) (mset cl)"
    by (simp add: recompute_def)
  also have "\<dots> = image_mset (\<lambda>(d, k, j, s). (distance P' k j, k, j, s))
      (image_mset (\<lambda>(t, k, j, s). (distance P k j, k, j, s)) (mset cs))"
    by (simp only: assms)
  also have "\<dots> = image_mset (\<lambda>(t, k, j, s). (distance P' k j, k, j, s)) (mset cs)"
    unfolding multiset.map_comp by (rule image_mset_cong) auto
  finally show ?thesis .
qed

lemma hd_sort_least:
  fixes xs :: "('a::linorder) list"
  assumes "xs \<noteq> []"
  shows "hd (sort xs) \<in> set xs" and "\<forall>x \<in> set xs. hd (sort xs) \<le> x"
    and "mset (tl (sort xs)) = mset xs - {#hd (sort xs)#}"
proof -
  from assms have ne: "sort xs \<noteq> []" by (metis length_sort length_0_conv)
  then obtain y ys where s: "sort xs = y # ys" by (cases "sort xs") auto
  have "set (sort xs) = set xs" by simp
  with s show "hd (sort xs) \<in> set xs" by auto
  have "sorted (sort xs)" by simp
  with s have "\<forall>x \<in> set ys. y \<le> x" by simp
  moreover have "set xs = insert y (set ys)" using s by (metis list.simps(15) set_sort)
  ultimately show "\<forall>x \<in> set xs. hd (sort xs) \<le> x" using s by auto
  have "mset xs = mset (sort xs)" by simp
  also have "\<dots> = add_mset y (mset ys)" by (simp add: s)
  finally show "mset (tl (sort xs)) = mset xs - {#hd (sort xs)#}" by (simp add: s)
qed

lemma resolve_greedy:
  "mset crossesl = image_mset (\<lambda>(t, k, j, s). (distance P k j, k, j, s)) (mset pending) \<Longrightarrow>
   greedy P pending (fst (resolve P crossesl)) (snd (resolve P crossesl))"
proof (induction P crossesl arbitrary: pending rule: resolve.induct)
  case (1 P crossesl)
  let ?f = "\<lambda>(t, k, j, s). (distance P k j, k, j, s)"
  show ?case
  proof (cases "crossesl = []")
    case True
    with "1.prems" have "pending = []" by simp
    with True show ?thesis by (simp add: resolve.simps greedy_done)
  next
    case False
    define c' where "c' = hd (sort crossesl)"
    define P' where "P' = swap_then (fst (snd c') + 1) (fst (snd (snd c')) + 1) P"
    define r where "r = resolve P' (recompute P' (tl (sort crossesl)))"
    note hs = hd_sort_least[OF False]
    from hs(1) have "c' \<in># mset crossesl" by (simp add: c'_def)
    with "1.prems" have "c' \<in> ?f ` set pending" by simp
    then obtain c where c: "c \<in> set pending" "c' = ?f c" by blast
    obtain t k j s where ct: "c = (t, k, j, s)" by (cases c) auto
    with c(2) have c'eq: "c' = (distance P k j, k, j, s)" by simp
    have least: "\<forall>(t', k', j', s') \<in> set pending. distance P k j \<le> distance P k' j'"
    proof (clarify)
      fix t' k' j' s' assume "(t', k', j', s') \<in> set pending"
      then have "?f (t', k', j', s') \<in># image_mset ?f (mset pending)" by force
      with "1.prems" have "?f (t', k', j', s') \<in> set crossesl" by (metis set_mset_mset)
      with hs(2) have "c' \<le> ?f (t', k', j', s')" by (simp add: c'_def)
      then show "distance P k j \<le> distance P k' j'"
        by (auto simp: c'eq less_eq_prod_def)
    qed
    have "mset (tl (sort crossesl)) = image_mset ?f (mset pending) - {#?f c#}"
      using hs(3) "1.prems" c(2) by (simp add: c'_def)
    also have "\<dots> = image_mset ?f (mset pending - {#c#})"
      using c(1) by (simp add: image_mset_Diff)
    also have "\<dots> = image_mset ?f (mset (remove1 c pending))" by simp
    finally have "mset (tl (sort crossesl)) = image_mset ?f (mset (remove1 c pending))" .
    then have rest: "mset (recompute P' (tl (sort crossesl)))
        = image_mset (\<lambda>(t, k, j, s). (distance P' k j, k, j, s)) (mset (remove1 c pending))"
      by (rule recompute_after_crosses)
    have ih: "greedy P' (remove1 c pending) (fst r) (snd r)"
      unfolding r_def by (rule "1.IH"[OF False c'_def P'_def rest])
    have P'eq: "P' = swap_then (k + 1) (j + 1) P" by (simp add: P'_def c'eq)
    have gen: "generator P c' = s * int (min (P (k + 1)) (P (j + 1)))"
      by (simp add: generator_def c'eq)
    have "greedy P pending (s * int (min (P (k + 1)) (P (j + 1))) # fst r) (snd r)"
      using c(1) least ih unfolding ct P'eq distance_def swap_then_def by (rule greedy_pick)
    moreover have "resolve P crossesl = (generator P c' # fst r, snd r)"
      by (subst resolve.simps) (simp add: False Let_def c'_def P'_def r_def)
    ultimately show ?thesis by (simp add: gen)
  qed
qed

lemma sorted_time_groups:
  fixes S :: "cruce list"
  shows "sorted S \<Longrightarrow> \<forall>x \<in> set S. t0 \<le> fst x \<Longrightarrow>
   filter (\<lambda>c. fst c = t0) S = takeWhile (\<lambda>c. fst c = t0) S
   \<and> filter (\<lambda>c. fst c \<noteq> t0) S = dropWhile (\<lambda>c. fst c = t0) S"
proof (induction S)
  case Nil
  then show ?case by simp
next
  case (Cons x S)
  from Cons.prems have sS: "sorted S" and ge: "\<forall>y \<in> set S. x \<le> y" and t0: "\<forall>y \<in> set S. t0 \<le> fst y"
    by simp_all
  show ?case
  proof (cases "fst x = t0")
    case True
    with Cons.IH[OF sS t0] show ?thesis by simp
  next
    case False
    with Cons.prems(2) have lt: "t0 < fst x" by (simp add: le_less)
    have "\<forall>y \<in> set S. fst y \<noteq> t0"
    proof
      fix y assume "y \<in> set S"
      with ge have "x \<le> y" by blast
      then have "fst x \<le> fst y" by (auto simp: less_eq_prod_def)
      with lt show "fst y \<noteq> t0" by simp
    qed
    then have "filter (\<lambda>c. fst c = t0) S = []" "filter (\<lambda>c. fst c \<noteq> t0) S = S"
      by (simp_all add: filter_empty_conv filter_id_conv)
    with False show ?thesis by simp
  qed
qed

lemma drop_first_time_group:
  fixes S :: "cruce list"
  assumes "sorted S" and "S \<noteq> []"
  shows "drop (length (filter (\<lambda>c. fst c = fst (hd S)) S)) S = filter (\<lambda>c. fst c \<noteq> fst (hd S)) S"
    and "fst (hd S) = Min (fst ` set S)"
proof -
  from assms(2) obtain x xs where S: "S = x # xs" by (cases S) auto
  with assms(1) have ge: "\<forall>y \<in> set xs. x \<le> y" by simp
  have le: "\<forall>y \<in> set S. fst (hd S) \<le> fst y"
  proof
    fix y assume "y \<in> set S"
    with S ge have "x \<le> y" by auto
    then show "fst (hd S) \<le> fst y" by (auto simp: S less_eq_prod_def)
  qed
  from sorted_time_groups[OF assms(1) le]
  have "filter (\<lambda>c. fst c = fst (hd S)) S = takeWhile (\<lambda>c. fst c = fst (hd S)) S"
    and "filter (\<lambda>c. fst c \<noteq> fst (hd S)) S = dropWhile (\<lambda>c. fst c = fst (hd S)) S"
    by simp_all
  then show "drop (length (filter (\<lambda>c. fst c = fst (hd S)) S)) S
      = filter (\<lambda>c. fst c \<noteq> fst (hd S)) S"
    by (simp add: dropWhile_eq_drop)
  show "fst (hd S) = Min (fst ` set S)"
  proof (rule sym, rule Min_eqI)
    show "finite (fst ` set S)" by simp
    show "\<And>y. y \<in> fst ` set S \<Longrightarrow> fst (hd S) \<le> y" using le by auto
    show "fst (hd S) \<in> fst ` set S" using assms(2) by simp
  qed
qed

lemma process_in_time_order:
  "sorted S \<Longrightarrow> mset S = mset pending \<Longrightarrow> in_time_order P pending (process P S)"
proof (induction P S arbitrary: pending rule: process.induct)
  case (1 P cruces)
  show ?case
  proof (cases "cruces = []")
    case True
    with "1.prems"(2) have "pending = []" by simp
    with True show ?thesis by (simp add: process.simps in_time_done)
  next
    case False
    define t0 where "t0 = fst (hd cruces)"
    define crucesl where "crucesl = filter (\<lambda>c. fst c = fst (hd cruces)) cruces"
    define r where "r = resolve P (crosses_of P crucesl)"
    from "1.prems"(2) have sets: "set pending = set cruces" by (metis set_mset_mset)
    with False have pne: "pending \<noteq> []" by auto
    note d = drop_first_time_group[OF "1.prems"(1) False]
    have t0min: "t0 = Min (fst ` set pending)" by (simp add: t0_def d(2) sets)
    have "mset crucesl = mset (filter (\<lambda>c. fst c = t0) pending)"
      by (simp add: crucesl_def t0_def "1.prems"(2))
    then have "mset (crosses_of P crucesl)
        = image_mset (\<lambda>(t, k, j, s). (distance P k j, k, j, s)) (mset (filter (\<lambda>c. fst c = t0) pending))"
      by (simp only: crosses_of_mset)
    from resolve_greedy[OF this]
    have g: "greedy P (filter (\<lambda>c. fst c = t0) pending) (fst r) (snd r)" by (simp add: r_def)
    have dr: "drop (length crucesl) cruces = filter (\<lambda>c. fst c \<noteq> t0) cruces"
      by (simp add: crucesl_def t0_def d(1))
    have s': "sorted (drop (length crucesl) cruces)" using "1.prems"(1) by (rule sorted_wrt_drop)
    have m': "mset (drop (length crucesl) cruces) = mset (filter (\<lambda>c. fst c \<noteq> t0) pending)"
      by (simp add: dr "1.prems"(2))
    have ih: "in_time_order (snd r) (filter (\<lambda>c. fst c \<noteq> t0) pending)
        (process (snd r) (drop (length crucesl) cruces))"
      by (rule "1.IH"[OF False crucesl_def r_def s' m'])
    have "in_time_order P pending (fst r @ process (snd r) (drop (length crucesl) cruces))"
      using pne t0min g ih by (rule in_time_group)
    moreover have "process P cruces = fst r @ process (snd r) (drop (length crucesl) cruces)"
      by (subst process.simps) (simp add: False Let_def crucesl_def r_def)
    ultimately show ?thesis by simp
  qed
qed

lemma slice_braid_in_time_order:
  assumes "slice_braid tp i = Inr w"
  shows "\<exists>cruces. cruces_of (map fst (slice_columns tp i)) (map snd (slice_columns tp i)) = Inr cruces
     \<and> in_time_order (\<lambda>x. x) cruces w"
proof -
  from assms obtain cruces where
    cr: "cruces_of (map fst (slice_columns tp i)) (map snd (slice_columns tp i)) = Inr cruces"
    and w: "w = (if length cruces > 0 then process (\<lambda>x. x) (sort cruces) else [])"
    by (auto simp: slice_braid_def ebind_def Let_def split: sum.splits if_splits)
  have "in_time_order (\<lambda>x. x) cruces w"
  proof (cases "length cruces > 0")
    case True
    have "in_time_order (\<lambda>x. x) cruces (process (\<lambda>x. x) (sort cruces))"
      by (rule process_in_time_order) simp_all
    with True w show ?thesis by simp
  next
    case False
    with w show ?thesis by (simp add: in_time_done)
  qed
  with cr show ?thesis by blast
qed

text \<open>
  Claim C1. \<open>braid_from_piecewise\<close> goes through the slices in the order of time,
  and the word it builds is the concatenation of the words of the slices. In a slice,
  the recorded crossings are processed in increasing order of their interpolated time
  \<open>t\<close>: the pending crossings of the least time are resolved together, and among them
  the algorithm repeatedly selects a pending crossing whose distance
  \<open>P(j + 1) - P(k + 1)\<close> under the accumulated permutation \<open>P\<close> is minimal, emits its
  signed generator \<open>s * min(P(k + 1), P(j + 1))\<close>, replaces \<open>P\<close> by the product of the
  transposition of the pair with \<open>P\<close>, and resolves the remaining simultaneous crossings
  with the distances taken under the new permutation. The permutation starts as the
  identity in every slice.
\<close>

theorem crossings_resolved_in_time_order:
  assumes "braid_list strands = Inr w"
  shows "\<exists>tp ws. totalpoints strands = Inr tp \<and> w = concat ws
     \<and> length ws = length (hd tp) - 1
     \<and> (\<forall>i < length ws. \<exists>cruces.
           cruces_of (map fst (slice_columns tp i)) (map snd (slice_columns tp i)) = Inr cruces
           \<and> in_time_order (\<lambda>x. x) cruces (ws ! i))"
proof -
  from assms obtain tp where tp: "totalpoints strands = Inr tp" and b: "braid_of_points tp = Inr w"
    by (auto simp: braid_list_def ebind_def split: sum.splits)
  from b obtain ws where ws: "emap (slice_braid tp) [0..<length (hd tp) - 1] = Inr ws"
    and w: "w = concat ws"
    by (auto simp: braid_of_points_def ebind_def split: sum.splits)
  from ws have la: "list_all2 (\<lambda>i y. slice_braid tp i = Inr y) [0..<length (hd tp) - 1] ws"
    by (simp add: emap_Inr_iff)
  then have len: "length ws = length (hd tp) - 1" by (auto dest: list_all2_lengthD)
  have "\<forall>i < length ws. \<exists>cruces.
           cruces_of (map fst (slice_columns tp i)) (map snd (slice_columns tp i)) = Inr cruces
           \<and> in_time_order (\<lambda>x. x) cruces (ws ! i)"
  proof (intro allI impI)
    fix i assume i: "i < length ws"
    from la i have "slice_braid tp ([0..<length (hd tp) - 1] ! i) = Inr (ws ! i)"
      by (rule list_all2_nthD2)
    with i len have "slice_braid tp i = Inr (ws ! i)" by simp
    then show "\<exists>cruces.
           cruces_of (map fst (slice_columns tp i)) (map snd (slice_columns tp i)) = Inr cruces
           \<and> in_time_order (\<lambda>x. x) cruces (ws ! i)"
      by (rule slice_braid_in_time_order)
  qed
  with tp w len show ?thesis by blast
qed

text \<open>
  Two strands stay at \<open>0\<close> and \<open>i\<close>; a third one, at height \<open>2\<close>, goes from real part
  \<open>1\<close> to \<open>-1\<close> and back. In each of the two slices it crosses the two others at the
  same time. In the first slice the crossing of least distance is the second of the list,
  and the word is \<open>2 1\<close>; in the second slice the generator of the second crossing depends
  on the transposition made for the first, and the word is \<open>-1 -2\<close>.
\<close>

theorem crossings_resolved_in_time_order_witness:
  "braid_list [[(0, (0, 0)), (1, (0, 0))], [(0, (0, 1)), (1, (0, 1))],
               [(0, (1, 2)), (1/2, (-1, 2)), (1, (1, 2))]]
     = Inr [2, 1, -1, -2]
   \<and> (\<exists>tp ws.
         totalpoints [[(0, (0, 0)), (1, (0, 0))], [(0, (0, 1)), (1, (0, 1))],
                      [(0, (1, 2)), (1/2, (-1, 2)), (1, (1, 2))]]
           = Inr tp
         \<and> [2, 1, -1, -2] = concat ws \<and> length ws = length (hd tp) - 1
         \<and> (\<forall>i < length ws. \<exists>cruces.
               cruces_of (map fst (slice_columns tp i)) (map snd (slice_columns tp i)) = Inr cruces
               \<and> in_time_order (\<lambda>x. x) cruces (ws ! i)))"
proof -
  have a: "braid_list [[(0, (0, 0)), (1, (0, 0))], [(0, (0, 1)), (1, (0, 1))],
               [(0, (1, 2)), (1/2, (-1, 2)), (1, (1, 2))]]
     = Inr [2, 1, -1, -2]" by code_simp
  from a crossings_resolved_in_time_order[OF a] show ?thesis by (rule conjI)
qed
subsection \<open>braid_from_piecewise: which crossings are recorded\<close>

lemma cruces_of_recorded:
  assumes "cruces_of l1 l2 = Inr cs" and "k < j" and "j < length l2" and "l2 ! j < l2 ! k"
  shows "\<exists>c. cruce_at l1 l2 (j, k) = Inr [c] \<and> c \<in> set cs"
proof -
  from assms(1) obtain css where css: "emap (cruce_at l1 l2) (index_pairs (length l2)) = Inr css"
    and cs: "cs = concat css"
    by (auto simp: cruces_of_def ebind_def split: sum.splits)
  from css have la: "list_all2 (\<lambda>p y. cruce_at l1 l2 p = Inr y) (index_pairs (length l2)) css"
    by (simp add: emap_Inr_iff)
  from la have len: "length (index_pairs (length l2)) = length css" by (rule list_all2_lengthD)
  from assms(2,3) have "(j, k) \<in> set (index_pairs (length l2))" by (simp add: index_pairs_iff)
  then obtain m where m: "m < length (index_pairs (length l2))" "index_pairs (length l2) ! m = (j, k)"
    by (auto simp: in_set_conv_nth)
  from la m(1) have "cruce_at l1 l2 (index_pairs (length l2) ! m) = Inr (css ! m)"
    by (rule list_all2_nthD)
  with m(2) have at: "cruce_at l1 l2 (j, k) = Inr (css ! m)" by simp
  from cruce_at_cases[OF at] assms(4) obtain c where c: "css ! m = [c]" by auto
  from m(1) len have "css ! m \<in> set css" by simp
  with c have "[c] \<in> set css" by simp
  then have "c \<in> set (concat css)" by (simp only: set_concat) force
  with cs have "c \<in> set cs" by simp
  with at c show ?thesis by auto
qed

lemma crossing_time_in_unit_interval:
  fixes a b c e :: rat
  assumes "a \<le> b" and "e \<le> c" and "c - a + b - e \<noteq> 0"
  shows "0 \<le> (b - a) / (c - a + b - e) \<and> (b - a) / (c - a + b - e) \<le> 1"
proof -
  from assms have pos: "0 < c - a + b - e" by linarith
  from assms(1) pos have "0 \<le> (b - a) / (c - a + b - e)" by simp
  moreover from assms(2) pos have "(b - a) / (c - a + b - e) \<le> 1" by (simp add: field_simps)
  ultimately show ?thesis by simp
qed

lemma neg_cmp_cases:
  "- cmp a b = (if b < a then - 1 else if b = a then 0 else 1)"
  by (auto simp: cmp_def)

lemma less_point_fst: "(p::point) < q \<Longrightarrow> fst p \<le> fst q"
  by (auto simp: less_prod_def)

text \<open>
  Claim C2, as amended. For a slice between two consecutive common times, let \<open>M\<close> be
  its sorted list of pairs, and suppose the detection of the crossings completes (no
  division by zero). A crossing between the strands at the positions \<open>k < j\<close> of \<open>M\<close> is
  recorded exactly when their order flips between the two ends of the slice: \<open>k\<close> is
  before \<open>j\<close> at the first end and \<open>j\<close> is before \<open>k\<close> at the second, in the order by
  real part then imaginary part. The parameter \<open>t\<close> of a recorded crossing is in
  \<open>[0, 1]\<close> and is the parameter at which the linearly interpolated real parts of the
  two strands coincide. Its sign is \<open>-1\<close> when at \<open>t\<close> the strand of higher index \<open>j\<close>
  has the smaller interpolated imaginary part, \<open>0\<close> when the two imaginary parts are
  equal (the two strands then coincide), and \<open>+1\<close> when it has the greater.
\<close>

theorem crossings_of_a_slice:
  assumes "cruces_of (map fst (slice_columns tp i)) (map snd (slice_columns tp i)) = Inr cruces"
  shows "(\<forall>k j. k < j \<and> j < length tp \<longrightarrow>
            ((\<exists>t s. (t, k, j, s) \<in> set cruces) \<longleftrightarrow>
             fst (slice_columns tp i ! k) < fst (slice_columns tp i ! j)
             \<and> snd (slice_columns tp i ! j) < snd (slice_columns tp i ! k)))
       \<and> (\<forall>(t, k, j, s) \<in> set cruces.
            k < j \<and> j < length tp \<and> 0 \<le> t \<and> t \<le> 1
            \<and> fst (point_at (map fst (slice_columns tp i)) (map snd (slice_columns tp i)) k t)
              = fst (point_at (map fst (slice_columns tp i)) (map snd (slice_columns tp i)) j t)
            \<and> s = (if snd (point_at (map fst (slice_columns tp i)) (map snd (slice_columns tp i)) j t)
                      < snd (point_at (map fst (slice_columns tp i)) (map snd (slice_columns tp i)) k t)
                    then - 1
                    else if snd (point_at (map fst (slice_columns tp i)) (map snd (slice_columns tp i)) j t)
                      = snd (point_at (map fst (slice_columns tp i)) (map snd (slice_columns tp i)) k t)
                    then 0 else 1))"
proof -
  let ?M = "slice_columns tp i"
  let ?l1 = "map fst ?M" and ?l2 = "map snd ?M"
  have len: "length ?l2 = length tp" "length ?l1 = length tp" by (simp_all add: slice_columns_length)
  have sorted_pairs: "\<And>k j. k < j \<Longrightarrow> j < length tp \<Longrightarrow> ?M ! k \<le> ?M ! j"
    using slice_columns_sorted by (simp add: sorted_nth_mono slice_columns_length)
  have first_order: "\<And>k j. k < j \<Longrightarrow> j < length tp \<Longrightarrow> snd (?M ! j) < snd (?M ! k)
      \<Longrightarrow> fst (?M ! k) < fst (?M ! j)"
  proof -
    fix k j assume kj: "k < j" "j < length tp" and flip: "snd (?M ! j) < snd (?M ! k)"
    from sorted_pairs[OF kj] have "fst (?M ! k) < fst (?M ! j)
        \<or> (fst (?M ! k) \<le> fst (?M ! j) \<and> snd (?M ! k) \<le> snd (?M ! j))"
      by (simp only: less_eq_prod_def)
    with flip show "fst (?M ! k) < fst (?M ! j)" by auto
  qed
  have member: "\<And>c. c \<in> set cruces \<Longrightarrow> \<exists>j k. k < j \<and> j < length tp
      \<and> ?l2 ! j < ?l2 ! k
      \<and> fst (?l2 ! k) - fst (?l1 ! k) + fst (?l1 ! j) - fst (?l2 ! j) \<noteq> 0
      \<and> c = ((fst (?l1 ! j) - fst (?l1 ! k)) / (fst (?l2 ! k) - fst (?l1 ! k) + fst (?l1 ! j) - fst (?l2 ! j)), k, j,
           - cmp (snd (point_at ?l1 ?l2 k ((fst (?l1 ! j) - fst (?l1 ! k)) / (fst (?l2 ! k) - fst (?l1 ! k) + fst (?l1 ! j) - fst (?l2 ! j)))))
                 (snd (point_at ?l1 ?l2 j ((fst (?l1 ! j) - fst (?l1 ! k)) / (fst (?l2 ! k) - fst (?l1 ! k) + fst (?l1 ! j) - fst (?l2 ! j))))))"
  proof -
    fix c assume "c \<in> set cruces"
    from cruces_of_member[OF assms this] obtain j k where
      jk: "k < j" "j < length ?l2" and at: "cruce_at ?l1 ?l2 (j, k) = Inr [c]" by blast
    from cruce_at_cases[OF at] jk show "\<exists>j k. k < j \<and> j < length tp
      \<and> ?l2 ! j < ?l2 ! k
      \<and> fst (?l2 ! k) - fst (?l1 ! k) + fst (?l1 ! j) - fst (?l2 ! j) \<noteq> 0
      \<and> c = ((fst (?l1 ! j) - fst (?l1 ! k)) / (fst (?l2 ! k) - fst (?l1 ! k) + fst (?l1 ! j) - fst (?l2 ! j)), k, j,
           - cmp (snd (point_at ?l1 ?l2 k ((fst (?l1 ! j) - fst (?l1 ! k)) / (fst (?l2 ! k) - fst (?l1 ! k) + fst (?l1 ! j) - fst (?l2 ! j)))))
                 (snd (point_at ?l1 ?l2 j ((fst (?l1 ! j) - fst (?l1 ! k)) / (fst (?l2 ! k) - fst (?l1 ! k) + fst (?l1 ! j) - fst (?l2 ! j))))))"
      unfolding point_at_def snd_conv len by (intro exI[of _ j] exI[of _ k]) simp
  qed
  have part1: "\<forall>k j. k < j \<and> j < length tp \<longrightarrow>
            ((\<exists>t s. (t, k, j, s) \<in> set cruces) \<longleftrightarrow>
             fst (?M ! k) < fst (?M ! j) \<and> snd (?M ! j) < snd (?M ! k))"
  proof (intro allI impI)
    fix k j assume kj: "k < j \<and> j < length tp"
    then have k: "k < length tp" by simp
    show "(\<exists>t s. (t, k, j, s) \<in> set cruces) \<longleftrightarrow>
             fst (?M ! k) < fst (?M ! j) \<and> snd (?M ! j) < snd (?M ! k)"
    proof
      assume "\<exists>t s. (t, k, j, s) \<in> set cruces"
      then obtain t s where "(t, k, j, s) \<in> set cruces" by blast
      from member[OF this] have "?l2 ! j < ?l2 ! k" by auto
      with kj k have flip: "snd (?M ! j) < snd (?M ! k)" by (simp add: slice_columns_length)
      with first_order[of k j] kj show "fst (?M ! k) < fst (?M ! j) \<and> snd (?M ! j) < snd (?M ! k)"
        by simp
    next
      assume "fst (?M ! k) < fst (?M ! j) \<and> snd (?M ! j) < snd (?M ! k)"
      with kj k have flip: "?l2 ! j < ?l2 ! k" by (simp add: slice_columns_length)
      from kj have "k < j" "j < length ?l2" by (simp_all add: slice_columns_length)
      from cruces_of_recorded[OF assms this flip] obtain c where
        c: "cruce_at ?l1 ?l2 (j, k) = Inr [c]" "c \<in> set cruces" by blast
      from cruce_at_cases[OF c(1)] obtain t s where "c = (t, k, j, s)" by auto
      with c(2) show "\<exists>t s. (t, k, j, s) \<in> set cruces" by blast
    qed
  qed
  have part2: "\<forall>c \<in> set cruces. case c of (t, k, j, s) \<Rightarrow>
            k < j \<and> j < length tp \<and> 0 \<le> t \<and> t \<le> 1
            \<and> fst (point_at ?l1 ?l2 k t) = fst (point_at ?l1 ?l2 j t)
            \<and> s = (if snd (point_at ?l1 ?l2 j t) < snd (point_at ?l1 ?l2 k t) then - 1
                    else if snd (point_at ?l1 ?l2 j t) = snd (point_at ?l1 ?l2 k t) then 0 else 1)"
  proof
    fix c assume "c \<in> set cruces"
    from member[OF this] obtain j k where kj: "k < j" "j < length tp"
      and flip: "?l2 ! j < ?l2 ! k"
      and den: "fst (?l2 ! k) - fst (?l1 ! k) + fst (?l1 ! j) - fst (?l2 ! j) \<noteq> 0"
      and c: "c = ((fst (?l1 ! j) - fst (?l1 ! k)) / (fst (?l2 ! k) - fst (?l1 ! k) + fst (?l1 ! j) - fst (?l2 ! j)), k, j,
           - cmp (snd (point_at ?l1 ?l2 k ((fst (?l1 ! j) - fst (?l1 ! k)) / (fst (?l2 ! k) - fst (?l1 ! k) + fst (?l1 ! j) - fst (?l2 ! j)))))
                 (snd (point_at ?l1 ?l2 j ((fst (?l1 ! j) - fst (?l1 ! k)) / (fst (?l2 ! k) - fst (?l1 ! k) + fst (?l1 ! j) - fst (?l2 ! j))))))"
      by blast
    define t where "t = (fst (?l1 ! j) - fst (?l1 ! k)) / (fst (?l2 ! k) - fst (?l1 ! k) + fst (?l1 ! j) - fst (?l2 ! j))"
    from kj have k: "k < length tp" by simp
    from flip kj k have flipM: "snd (?M ! j) < snd (?M ! k)" by (simp add: slice_columns_length)
    from first_order[OF kj flipM] have "fst (?M ! k) < fst (?M ! j)" .
    then have a: "fst (?l1 ! k) \<le> fst (?l1 ! j)"
      using kj k by (simp add: slice_columns_length less_point_fst)
    from flip have b: "fst (?l2 ! j) \<le> fst (?l2 ! k)" by (rule less_point_fst)
    from crossing_time_in_unit_interval[OF a b den] have t01: "0 \<le> t" "t \<le> 1"
      by (simp_all add: t_def)
    have re: "fst (point_at ?l1 ?l2 k t) = fst (point_at ?l1 ?l2 j t)"
      unfolding point_at_def fst_conv t_def by (rule crossing_time_real_parts[OF den])
    have sg: "- cmp (snd (point_at ?l1 ?l2 k t)) (snd (point_at ?l1 ?l2 j t))
        = (if snd (point_at ?l1 ?l2 j t) < snd (point_at ?l1 ?l2 k t) then - 1
           else if snd (point_at ?l1 ?l2 j t) = snd (point_at ?l1 ?l2 k t) then 0 else 1)"
      by (rule neg_cmp_cases)
    from c have c': "c = (t, k, j, - cmp (snd (point_at ?l1 ?l2 k t)) (snd (point_at ?l1 ?l2 j t)))"
      by (simp only: t_def)
    show "case c of (t, k, j, s) \<Rightarrow>
            k < j \<and> j < length tp \<and> 0 \<le> t \<and> t \<le> 1
            \<and> fst (point_at ?l1 ?l2 k t) = fst (point_at ?l1 ?l2 j t)
            \<and> s = (if snd (point_at ?l1 ?l2 j t) < snd (point_at ?l1 ?l2 k t) then - 1
                    else if snd (point_at ?l1 ?l2 j t) = snd (point_at ?l1 ?l2 k t) then 0 else 1)"
      unfolding c' using kj t01 re sg by simp
  qed
  from part1 part2 show ?thesis by blast
qed

text \<open>
  Two strands at different heights that exchange their real parts: one crossing at
  \<open>t = 1/2\<close>, of sign \<open>+1\<close>.
\<close>

theorem crossings_of_a_slice_witness:
  "cruces_of (map fst (slice_columns [[(0, 0), (1, 0)], [(1, 1), (0, 1)]] 0))
             (map snd (slice_columns [[(0, 0), (1, 0)], [(1, 1), (0, 1)]] 0)) = Inr [(1/2, 0, 1, 1)]
   \<and> ((\<exists>t s. (t, 0, 1, s) \<in> set [(1/2 :: rat, 0 :: nat, 1 :: nat, 1 :: int)]) \<longleftrightarrow>
        fst (slice_columns [[(0, 0), (1, 0)], [(1, 1), (0, 1)]] 0 ! 0)
          < fst (slice_columns [[(0, 0), (1, 0)], [(1, 1), (0, 1)]] 0 ! 1)
        \<and> snd (slice_columns [[(0, 0), (1, 0)], [(1, 1), (0, 1)]] 0 ! 1)
          < snd (slice_columns [[(0, 0), (1, 0)], [(1, 1), (0, 1)]] 0 ! 0))"
proof -
  let ?tp = "[[(0, 0), (1, 0)], [(1, 1), (0, 1)]] :: point list list"
  have a: "cruces_of (map fst (slice_columns ?tp 0)) (map snd (slice_columns ?tp 0))
      = Inr [(1/2, 0, 1, 1)]" by code_simp
  from crossings_of_a_slice[OF a]
  have "\<forall>k j. k < j \<and> j < length ?tp \<longrightarrow>
            ((\<exists>t s. (t, k, j, s) \<in> set [(1/2 :: rat, 0 :: nat, 1 :: nat, 1 :: int)]) \<longleftrightarrow>
             fst (slice_columns ?tp 0 ! k) < fst (slice_columns ?tp 0 ! j)
             \<and> snd (slice_columns ?tp 0 ! j) < snd (slice_columns ?tp 0 ! k))"
    by (rule conjunct1)
  then have "(0::nat) < 1 \<and> 1 < length ?tp \<longrightarrow>
            ((\<exists>t s. (t, 0, 1, s) \<in> set [(1/2 :: rat, 0 :: nat, 1 :: nat, 1 :: int)]) \<longleftrightarrow>
             fst (slice_columns ?tp 0 ! 0) < fst (slice_columns ?tp 0 ! 1)
             \<and> snd (slice_columns ?tp 0 ! 1) < snd (slice_columns ?tp 0 ! 0))"
    by blast
  then have "(\<exists>t s. (t, 0, 1, s) \<in> set [(1/2 :: rat, 0 :: nat, 1 :: nat, 1 :: int)]) \<longleftrightarrow>
             fst (slice_columns ?tp 0 ! 0) < fst (slice_columns ?tp 0 ! 1)
             \<and> snd (slice_columns ?tp 0 ! 1) < snd (slice_columns ?tp 0 ! 0)"
    by simp
  with a show ?thesis by (intro conjI)
qed

text \<open>
  The claim as stated fails where two strands pass through the same point: the strands
  \<open>t \<mapsto> t\<close> and \<open>t \<mapsto> 1 - t\<close> on the real axis cross at \<open>t = 1/2\<close>, and the sign of
  the recorded crossing is \<open>0\<close>, neither \<open>-1\<close> nor \<open>+1\<close>.
\<close>

theorem crossing_sign_zero_counterexample:
  "totalpoints [[(0, (0, 0)), (1, (1, 0))], [(0, (1, 0)), (1, (0, 0))]]
     = Inr [[(0, 0), (1, 0)], [(1, 0), (0, 0)]]
   \<and> cruces_of (map fst (slice_columns [[(0, 0), (1, 0)], [(1, 0), (0, 0)]] 0))
               (map snd (slice_columns [[(0, 0), (1, 0)], [(1, 0), (0, 0)]] 0)) = Inr [(1/2, 0, 1, 0)]"
  by code_simp

subsection \<open>braid_in_segment: roots too close\<close>


















subsection \<open>fundamental_group: the number of generators\<close>

lemma flatten_set: "set (flatten segs) = fst ` set segs \<union> snd ` set segs"
  by (auto simp: flatten_def image_iff) force+

text \<open>
  Claim C5. Whenever \<open>fundamental_group\<close> with \<open>simplified=False\<close> returns a
  presentation, it has exactly \<open>d n\<close> generators, where \<open>d\<close> is the degree in \<open>y\<close> of
  the polynomial and \<open>n\<close> is the number of distinct vertices of the path network, that
  is of distinct end points of the segments.
\<close>

theorem unsimplified_presentation_generators:
  assumes "fundamental_group Voronoi braid_of action simplify d disc False projective = Inr G"
  shows "\<exists>segs. segments Voronoi disc = Inr segs
     \<and> generators G = d * card (fst ` set segs \<union> snd ` set segs)"
proof -
  from assms obtain segs where segs: "segments Voronoi disc = Inr segs"
    by (auto simp: fundamental_group_def ebind_def split: sum.splits)
  from assms segs have "generators G = d * length (remdups (flatten segs))"
    by (auto simp: fundamental_group_def ebind_def Let_def split: sum.splits if_splits)
  also have "\<dots> = d * card (fst ` set segs \<union> snd ` set segs)"
    by (simp add: length_remdups_card_conv flatten_set)
  finally show ?thesis using segs by blast
qed

text \<open>
  Three sheets over the network of the single branch point \<open>0\<close>, with trivial braids:
  four vertices, twelve generators and twelve relators, the numbers of the docstring
  example \<open>fundamental_group(x^2 + y^3, simplified=False)\<close>.
\<close>

theorem unsimplified_presentation_generators_witness:
  "fundamental_group (\<lambda>conf. if conf = [(0, 0), (1, 0), (- 1, 0), (0, 1), (0, - 1)]
       then Inr \<lparr>vertices = [(- 1/2, - 1/2), (1/2, - 1/2), (- 1/2, 1/2), (1/2, 1/2)],
                ridge_vertices = [[- 1, 0], [- 1, 1], [0, 1], [- 1, 2], [0, 2], [- 1, 3], [1, 3], [2, 3]]\<rparr>
       else Inl ValueError) (\<lambda>seg. Inr []) (\<lambda>k b. [int k + 1]) (\<lambda>G. G) 3 [(0, 0)] False False
     = Inr \<lparr>generators = 12,
            relators = [[1, - 4], [2, - 5], [3, - 6], [1, - 7], [2, - 8], [3, - 9],
                        [4, - 10], [5, - 11], [6, - 12], [7, - 10], [8, - 11], [9, - 12]]\<rparr>
   \<and> (\<exists>segs. segments (\<lambda>conf. if conf = [(0, 0), (1, 0), (- 1, 0), (0, 1), (0, - 1)]
       then Inr \<lparr>vertices = [(- 1/2, - 1/2), (1/2, - 1/2), (- 1/2, 1/2), (1/2, 1/2)],
                ridge_vertices = [[- 1, 0], [- 1, 1], [0, 1], [- 1, 2], [0, 2], [- 1, 3], [1, 3], [2, 3]]\<rparr>
       else Inl ValueError) [(0, 0)] = Inr segs
        \<and> (12 :: nat) = 3 * card (fst ` set segs \<union> snd ` set segs))"
proof -
  let ?Vor = "\<lambda>conf :: point list. if conf = [(0, 0), (1, 0), (- 1, 0), (0, 1), (0, - 1)]
       then Inr \<lparr>vertices = [(- 1/2, - 1/2), (1/2, - 1/2), (- 1/2, 1/2), (1/2, 1/2)],
                ridge_vertices = [[- 1, 0], [- 1, 1], [0, 1], [- 1, 2], [0, 2], [- 1, 3], [1, 3], [2, 3]]\<rparr>
       else Inl ValueError"
  let ?G = "\<lparr>generators = 12,
            relators = [[1, - 4], [2, - 5], [3, - 6], [1, - 7], [2, - 8], [3, - 9],
                        [4, - 10], [5, - 11], [6, - 12], [7, - 10], [8, - 11], [9, - 12]]\<rparr>"
  have a: "fundamental_group ?Vor (\<lambda>seg. Inr []) (\<lambda>k b. [int k + 1]) (\<lambda>G. G) 3 [(0, 0)] False False
      = Inr ?G" by code_simp
  from unsimplified_presentation_generators[OF a]
  have "\<exists>segs. segments ?Vor [(0, 0)] = Inr segs
        \<and> (12 :: nat) = 3 * card (fst ` set segs \<union> snd ` set segs)" by simp
  with a show ?thesis by (rule conjI)
qed

subsection \<open>segments\<close>




subsection \<open>braid_from_piecewise: slices without crossings\<close>


lemma slice_braid_keeps_order:
  assumes "keeps_order tp" and i: "i < length (hd tp) - 1"
  shows "slice_braid tp i = Inr []"
proof -
  let ?M = "slice_columns tp i"
  have "\<forall>j < length (map snd ?M). \<forall>k < j. \<not> map snd ?M ! j < map snd ?M ! k"
  proof (intro allI impI)
    fix j k assume j: "j < length (map snd ?M)" and k: "k < j"
    then have jl: "j < length tp" and kl: "k < length tp" by (simp_all add: slice_columns_length)
    from slice_columns_row[OF jl] obtain rj where rj: "rj \<in> set tp" "?M ! j = (rj ! i, rj ! (i + 1))"
      by blast
    from slice_columns_row[OF kl] obtain rk where rk: "rk \<in> set tp" "?M ! k = (rk ! i, rk ! (i + 1))"
      by blast
    have "?M ! k \<le> ?M ! j"
      using slice_columns_sorted k jl by (simp add: sorted_nth_mono slice_columns_length)
    then have "rk ! i < rj ! i \<or> (rk ! i \<le> rj ! i \<and> rk ! (i + 1) \<le> rj ! (i + 1))"
      by (simp only: rj rk less_eq_prod_def fst_conv snd_conv)
    then have le: "rk ! i < rj ! i \<or> (rk ! i = rj ! i \<and> rk ! (i + 1) \<le> rj ! (i + 1))"
      by (auto simp: le_less)
    from assms rj(1) rk(1) have eq: "(rk ! i < rj ! i) = (rk ! (i + 1) < rj ! (i + 1))"
      by (auto simp: keeps_order_def)
    from le eq have "\<not> rj ! (i + 1) < rk ! (i + 1)" by auto
    then show "\<not> map snd ?M ! j < map snd ?M ! k"
      using jl kl by (simp add: slice_columns_length rj rk)
  qed
  then have "cruces_of (map fst ?M) (map snd ?M) = Inr []" by (rule cruces_of_no_flip)
  then show ?thesis by (simp add: slice_braid_def ebind_def)
qed

lemma braid_of_points_keeps_order:
  assumes "keeps_order tp"
  shows "braid_of_points tp = Inr []"
proof -
  have "\<forall>i \<in> set [0..<length (hd tp) - 1]. slice_braid tp i = Inr []"
    using slice_braid_keeps_order[OF assms] by simp
  then have "emap (slice_braid tp) [0..<length (hd tp) - 1]
      = Inr (map (\<lambda>x. []) [0..<length (hd tp) - 1])" by (rule emap_all_Nil)
  then show ?thesis by (simp add: braid_of_points_def ebind_def)
qed

text \<open>
  Claim C7. For a family of parallel strands, that is one whose points keep the same
  relative order at every common time of the merged grid, \<open>braid_from_piecewise\<close>
  returns the empty braid word, the identity of the braid group.
\<close>

theorem parallel_strands_give_empty_braid:
  assumes "totalpoints strands = Inr tp" and "keeps_order tp"
  shows "braid_from_piecewise strands = Inr []"
proof -
  from assms(2) have "braid_of_points tp = Inr []" by (rule braid_of_points_keeps_order)
  with assms(1) have "braid_list strands = Inr []" by (simp add: braid_list_def ebind_def)
  then show ?thesis by (simp add: braid_from_piecewise_def ebind_def BraidGroup_def)
qed

text \<open>Three strands with different sample times that never change their order.\<close>

theorem parallel_strands_witness:
  "totalpoints [[(0, (0, 0)), (1/2, (0, 1)), (1, (0, 0))], [(0, (1, 0)), (1/4, (2, 1)), (1, (1, 0))],
                [(0, (4, 1)), (1, (6, 0))]]
     = Inr [[(0, 0), (0, 1/2), (0, 1), (0, 0)], [(1, 0), (2, 1), (5/3, 2/3), (1, 0)],
            [(4, 1), (9/2, 3/4), (5, 1/2), (6, 0)]]
   \<and> keeps_order [[(0, 0), (0, 1/2), (0, 1), (0, 0)], [(1, 0), (2, 1), (5/3, 2/3), (1, 0)],
            [(4, 1), (9/2, 3/4), (5, 1/2), (6, 0)]]
   \<and> braid_from_piecewise [[(0, (0, 0)), (1/2, (0, 1)), (1, (0, 0))], [(0, (1, 0)), (1/4, (2, 1)), (1, (1, 0))],
                [(0, (4, 1)), (1, (6, 0))]] = Inr []"
proof -
  have a: "totalpoints [[(0, (0, 0)), (1/2, (0, 1)), (1, (0, 0))], [(0, (1, 0)), (1/4, (2, 1)), (1, (1, 0))],
                [(0, (4, 1)), (1, (6, 0))]]
     = Inr [[(0, 0), (0, 1/2), (0, 1), (0, 0)], [(1, 0), (2, 1), (5/3, 2/3), (1, 0)],
            [(4, 1), (9/2, 3/4), (5, 1/2), (6, 0)]]" by code_simp
  have b: "keeps_order [[(0, 0), (0, 1/2), (0, 1), (0, 0)], [(1, 0), (2, 1), (5/3, 2/3), (1, 0)],
            [(4, 1), (9/2, 3/4), (5, 1/2), (6, 0)]]" by code_simp
  from a b parallel_strands_give_empty_braid[OF a b] show ?thesis by (intro conjI)
qed

subsection \<open>segments on a degenerate set of branch points\<close>


text \<open>On the empty set, \<open>abs(discpoints).max()\<close> raises before the diagram is built.\<close>

lemma segments_empty: "segments Voronoi [] = Inl ValueError"
  by (simp add: segments_def configuration_def abs_max_def ebind_def)




subsection \<open>braid_from_piecewise: the generators are in range\<close>


lemma swap_then_perm_on:
  assumes "perm_on d P" and "a \<in> {1..d}" and "b \<in> {1..d}"
  shows "perm_on d (swap_then a b P)"
proof -
  let ?s = "\<lambda>x. if x = a then b else if x = b then a else x"
  have s_in: "\<And>x. x \<in> {1..d} \<Longrightarrow> ?s x \<in> {1..d}" using assms(2,3) by auto
  have s_inj: "\<And>x y. ?s x = ?s y \<Longrightarrow> x = y" by (auto split: if_splits)
  from assms(1) have inj: "inj_on P {1..d}" and rng: "P ` {1..d} \<subseteq> {1..d}"
    by (simp_all add: perm_on_def)
  have "inj_on (swap_then a b P) {1..d}"
  proof (rule inj_onI)
    fix x y assume x: "x \<in> {1..d}" and y: "y \<in> {1..d}"
      and eq: "swap_then a b P x = swap_then a b P y"
    from eq have "P (?s x) = P (?s y)" by (simp add: swap_then_def)
    with inj have "?s x = ?s y" using s_in[OF x] s_in[OF y] by (rule inj_onD)
    then show "x = y" by (rule s_inj)
  qed
  moreover have "swap_then a b P ` {1..d} \<subseteq> {1..d}"
  proof
    fix z assume "z \<in> swap_then a b P ` {1..d}"
    then obtain x where x: "x \<in> {1..d}" and z: "z = P (?s x)" by (auto simp: swap_then_def)
    from s_in[OF x] rng show "z \<in> {1..d}" unfolding z by blast
  qed
  ultimately show ?thesis by (simp add: perm_on_def)
qed

lemma generator_in_range:
  assumes "perm_on d P" and "k < j" and "j < d" and "s = 1 \<or> s = - 1"
  shows "generator_ok d (generator P (dd, k, j, s))"
proof -
  from assms(1) have inj: "inj_on P {1..d}" and rng: "P ` {1..d} \<subseteq> {1..d}"
    by (simp_all add: perm_on_def)
  have k: "k + 1 \<in> {1..d}" and j: "j + 1 \<in> {1..d}" using assms(2,3) by auto
  have ne: "P (k + 1) \<noteq> P (j + 1)"
  proof
    assume "P (k + 1) = P (j + 1)"
    with inj have "k + 1 = j + 1" using k j by (rule inj_onD)
    with assms(2) show False by simp
  qed
  from rng k have "P (k + 1) \<in> {1..d}" by blast
  then have pk: "1 \<le> P (k + 1)" "P (k + 1) \<le> d" by simp_all
  from rng j have "P (j + 1) \<in> {1..d}" by blast
  then have pj: "1 \<le> P (j + 1)" "P (j + 1) \<le> d" by simp_all
  from ne pk pj have m: "1 \<le> min (P (k + 1)) (P (j + 1))" "min (P (k + 1)) (P (j + 1)) + 1 \<le> d"
    by (auto simp: min_def)
  from assms(4) have "\<bar>s * int (min (P (k + 1)) (P (j + 1)))\<bar> = int (min (P (k + 1)) (P (j + 1)))"
    by (auto simp: abs_mult)
  with m show ?thesis by (auto simp: generator_ok_def generator_def)
qed

lemma recompute_components:
  "c \<in> set (recompute P cl) \<Longrightarrow> \<exists>c' \<in> set cl. snd c = snd c'"
proof -
  assume "c \<in> set (recompute P cl)"
  then obtain c' where c': "c' \<in> set cl" "c = (case c' of (d, k, j, s) \<Rightarrow> (distance P k j, k, j, s))"
    by (auto simp: recompute_def)
  from c'(2) have "snd c = snd c'" by (cases c') auto
  with c'(1) show ?thesis by blast
qed

lemma crosses_of_components:
  "c \<in> set (crosses_of P cs) \<Longrightarrow> \<exists>c' \<in> set cs. snd c = snd c'"
proof -
  assume "c \<in> set (crosses_of P cs)"
  then obtain c' where c': "c' \<in> set cs" "c = (case c' of (t, k, j, s) \<Rightarrow> (distance P k j, k, j, s))"
    by (auto simp: crosses_of_def)
  from c'(2) have "snd c = snd c'" by (cases c') auto
  with c'(1) show ?thesis by blast
qed

lemma resolve_generators:
  "perm_on d P \<Longrightarrow>
   \<forall>c \<in> set crossesl. fst (snd c) < fst (snd (snd c)) \<and> fst (snd (snd c)) < d
      \<and> (snd (snd (snd c)) = 1 \<or> snd (snd (snd c)) = - 1) \<Longrightarrow>
   (\<forall>g \<in> set (fst (resolve P crossesl)). generator_ok d g) \<and> perm_on d (snd (resolve P crossesl))"
proof (induction P crossesl rule: resolve.induct)
  case (1 P crossesl)
  show ?case
  proof (cases "crossesl = []")
    case True
    with "1.prems" show ?thesis by (simp add: resolve.simps)
  next
    case False
    define c where "c = hd (sort crossesl)"
    define P' where "P' = swap_then (fst (snd c) + 1) (fst (snd (snd c)) + 1) P"
    define r where "r = resolve P' (recompute P' (tl (sort crossesl)))"
    from False have "sort crossesl \<noteq> []" by (metis length_sort length_0_conv)
    then have cin: "c \<in> set crossesl" unfolding c_def by (metis hd_in_set set_sort)
    with "1.prems"(2) have cok: "fst (snd c) < fst (snd (snd c))" "fst (snd (snd c)) < d"
      "snd (snd (snd c)) = 1 \<or> snd (snd (snd c)) = - 1" by auto
    obtain dd k j s where c: "c = (dd, k, j, s)" by (cases c) auto
    from cok c have kj: "k < j" "j < d" "s = 1 \<or> s = - 1" by simp_all
    have g: "generator_ok d (generator P c)"
      unfolding c by (rule generator_in_range[OF "1.prems"(1) kj])
    have P': "perm_on d P'" unfolding P'_def
      using kj by (intro swap_then_perm_on "1.prems"(1)) (auto simp: c)
    have rest: "\<forall>x \<in> set (recompute P' (tl (sort crossesl))).
        fst (snd x) < fst (snd (snd x)) \<and> fst (snd (snd x)) < d
        \<and> (snd (snd (snd x)) = 1 \<or> snd (snd (snd x)) = - 1)"
    proof
      fix x assume "x \<in> set (recompute P' (tl (sort crossesl)))"
      from recompute_components[OF this] obtain x' where
        x': "x' \<in> set (tl (sort crossesl))" "snd x = snd x'" by blast
      from x'(1) have "x' \<in> set (sort crossesl)" by (rule list.set_sel(2)[rotated]) (use \<open>sort crossesl \<noteq> []\<close> in simp)
      then have "x' \<in> set crossesl" by simp
      with "1.prems"(2) x'(2) show "fst (snd x) < fst (snd (snd x)) \<and> fst (snd (snd x)) < d
        \<and> (snd (snd (snd x)) = 1 \<or> snd (snd (snd x)) = - 1)" by simp
    qed
    have ih: "(\<forall>g \<in> set (fst r). generator_ok d g) \<and> perm_on d (snd r)"
      unfolding r_def
      by (rule "1.IH"[OF False c_def P'_def P' rest])
    have "resolve P crossesl = (generator P c # fst r, snd r)"
      by (subst resolve.simps) (simp add: False Let_def c_def P'_def r_def)
    with g ih show ?thesis by simp
  qed
qed

lemma process_generators:
  "perm_on d P \<Longrightarrow>
   \<forall>c \<in> set cruces. fst (snd c) < fst (snd (snd c)) \<and> fst (snd (snd c)) < d
      \<and> (snd (snd (snd c)) = 1 \<or> snd (snd (snd c)) = - 1) \<Longrightarrow>
   \<forall>g \<in> set (process P cruces). generator_ok d g"
proof (induction P cruces rule: process.induct)
  case (1 P cruces)
  show ?case
  proof (cases "cruces = []")
    case True
    then show ?thesis by (simp add: process.simps)
  next
    case False
    define crucesl where "crucesl = filter (\<lambda>c. fst c = fst (hd cruces)) cruces"
    define r where "r = resolve P (crosses_of P crucesl)"
    have ok: "\<forall>c \<in> set (crosses_of P crucesl). fst (snd c) < fst (snd (snd c)) \<and> fst (snd (snd c)) < d
      \<and> (snd (snd (snd c)) = 1 \<or> snd (snd (snd c)) = - 1)"
    proof
      fix x assume "x \<in> set (crosses_of P crucesl)"
      from crosses_of_components[OF this] obtain x' where
        x': "x' \<in> set crucesl" "snd x = snd x'" by blast
      from x'(1) have "x' \<in> set cruces" by (simp add: crucesl_def)
      with "1.prems"(2) x'(2) show "fst (snd x) < fst (snd (snd x)) \<and> fst (snd (snd x)) < d
        \<and> (snd (snd (snd x)) = 1 \<or> snd (snd (snd x)) = - 1)" by simp
    qed
    from resolve_generators[OF "1.prems"(1) ok]
    have res: "\<forall>g \<in> set (fst r). generator_ok d g" and P': "perm_on d (snd r)"
      by (simp_all add: r_def)
    have sub: "\<forall>c \<in> set (drop (length crucesl) cruces). fst (snd c) < fst (snd (snd c)) \<and> fst (snd (snd c)) < d
      \<and> (snd (snd (snd c)) = 1 \<or> snd (snd (snd c)) = - 1)"
      using "1.prems"(2) by (meson in_set_dropD)
    have ih: "\<forall>g \<in> set (process (snd r) (drop (length crucesl) cruces)). generator_ok d g"
      by (rule "1.IH"[OF False crucesl_def r_def P' sub])
    have "process P cruces = fst r @ process (snd r) (drop (length crucesl) cruces)"
      by (subst process.simps) (simp add: False Let_def crucesl_def r_def)
    with res ih show ?thesis by auto
  qed
qed

lemma perm_on_id: "perm_on d (\<lambda>x. x)"
  by (simp add: perm_on_def)

lemma cmp_nonzero: "a \<noteq> b \<Longrightarrow> - cmp a b = 1 \<or> - cmp a b = - 1"
  by (auto simp: cmp_def)

lemma slice_braid_generators:
  assumes sb: "slice_braid tp i = Inr w"
    and nc: "\<And>cruces. cruces_of (map fst (slice_columns tp i)) (map snd (slice_columns tp i)) = Inr cruces \<Longrightarrow>
        \<forall>(t, k, j, s) \<in> set cruces.
           point_at (map fst (slice_columns tp i)) (map snd (slice_columns tp i)) k t
           \<noteq> point_at (map fst (slice_columns tp i)) (map snd (slice_columns tp i)) j t"
  shows "\<forall>g \<in> set w. generator_ok (length tp) g"
proof -
  let ?l1 = "map fst (slice_columns tp i)" and ?l2 = "map snd (slice_columns tp i)"
  from sb obtain cruces where cr: "cruces_of ?l1 ?l2 = Inr cruces"
    and w: "w = (if length cruces > 0 then process (\<lambda>x. x) (sort cruces) else [])"
    by (auto simp: slice_braid_def ebind_def Let_def split: sum.splits if_splits)
  have ok: "\<forall>c \<in> set (sort cruces). fst (snd c) < fst (snd (snd c)) \<and> fst (snd (snd c)) < length tp
      \<and> (snd (snd (snd c)) = 1 \<or> snd (snd (snd c)) = - 1)"
  proof
    fix c assume "c \<in> set (sort cruces)"
    then have cin: "c \<in> set cruces" by simp
    from cruces_of_member[OF cr cin] obtain j k where
      jk: "k < j" "j < length ?l2" and at: "cruce_at ?l1 ?l2 (j, k) = Inr [c]" by blast
    let ?den = "fst (?l2 ! k) - fst (?l1 ! k) + fst (?l1 ! j) - fst (?l2 ! j)"
    let ?t = "(fst (?l1 ! j) - fst (?l1 ! k)) / ?den"
    from cruce_at_cases[OF at] have den: "?den \<noteq> 0"
      and c: "c = (?t, k, j, - cmp (snd (?l1 ! k) * (1 - ?t) + ?t * snd (?l2 ! k))
                                  (snd (?l1 ! j) * (1 - ?t) + ?t * snd (?l2 ! j)))"
      by auto
    from nc[OF cr] cin have "point_at ?l1 ?l2 k (fst c) \<noteq> point_at ?l1 ?l2 j (fst c)"
      by (auto simp: c)
    then have pt: "point_at ?l1 ?l2 k ?t \<noteq> point_at ?l1 ?l2 j ?t" by (simp add: c)
    have re: "fst (?l1 ! k) * (1 - ?t) + ?t * fst (?l2 ! k) = fst (?l1 ! j) * (1 - ?t) + ?t * fst (?l2 ! j)"
      by (rule crossing_time_real_parts[OF den])
    from pt re have "snd (?l1 ! k) * (1 - ?t) + ?t * snd (?l2 ! k) \<noteq> snd (?l1 ! j) * (1 - ?t) + ?t * snd (?l2 ! j)"
      by (simp add: point_at_def)
    from cmp_nonzero[OF this] jk show "fst (snd c) < fst (snd (snd c)) \<and> fst (snd (snd c)) < length tp
      \<and> (snd (snd (snd c)) = 1 \<or> snd (snd (snd c)) = - 1)"
      by (simp add: c slice_columns_length)
  qed
  show ?thesis
  proof (cases "length cruces > 0")
    case True
    with w have "w = process (\<lambda>x. x) (sort cruces)" by simp
    with process_generators[OF perm_on_id ok] show ?thesis by simp
  next
    case False
    with w show ?thesis by simp
  qed
qed

lemma braid_of_points_generators:
  assumes "braid_of_points tp = Inr w" and "never_coincide tp"
  shows "\<forall>g \<in> set w. generator_ok (length tp) g"
proof -
  from assms(1) obtain ws where ws: "emap (slice_braid tp) [0..<length (hd tp) - 1] = Inr ws"
    and w: "w = concat ws"
    by (auto simp: braid_of_points_def ebind_def split: sum.splits)
  from ws have la: "list_all2 (\<lambda>i y. slice_braid tp i = Inr y) [0..<length (hd tp) - 1] ws"
    by (simp add: emap_Inr_iff)
  show ?thesis
  proof
    fix g assume "g \<in> set w"
    with w obtain xs where xs: "xs \<in> set ws" "g \<in> set xs" by auto
    from xs(1) obtain m where "m < length ws" "ws ! m = xs" by (auto simp: in_set_conv_nth)
    with xs(2) have m: "m < length ws" "g \<in> set (ws ! m)" by simp_all
    from la have len: "length [0..<length (hd tp) - 1] = length ws" by (rule list_all2_lengthD)
    from la m(1) have "slice_braid tp ([0..<length (hd tp) - 1] ! m) = Inr (ws ! m)"
      by (rule list_all2_nthD2)
    moreover have mm: "[0..<length (hd tp) - 1] ! m = m" "m < length (hd tp) - 1"
      using m(1) len by auto
    ultimately have sb: "slice_braid tp m = Inr (ws ! m)" by simp
    have "\<forall>g \<in> set (ws ! m). generator_ok (length tp) g"
    proof (rule slice_braid_generators[OF sb])
      fix cruces
      assume cr: "cruces_of (map fst (slice_columns tp m)) (map snd (slice_columns tp m)) = Inr cruces"
      from assms(2) mm(2) have "case cruces_of (map fst (slice_columns tp m)) (map snd (slice_columns tp m)) of
          Inl e \<Rightarrow> True
        | Inr cruces \<Rightarrow>
            (\<forall>(t, k, j, s) \<in> set cruces.
               point_at (map fst (slice_columns tp m)) (map snd (slice_columns tp m)) k t
               \<noteq> point_at (map fst (slice_columns tp m)) (map snd (slice_columns tp m)) j t)"
        by (simp add: never_coincide_def)
      with cr show "\<forall>(t, k, j, s) \<in> set cruces.
               point_at (map fst (slice_columns tp m)) (map snd (slice_columns tp m)) k t
               \<noteq> point_at (map fst (slice_columns tp m)) (map snd (slice_columns tp m)) j t"
        by simp
    qed
    with m(2) show "generator_ok (length tp) g" by blast
  qed
qed

text \<open>
  Claim C10. For a family of \<open>d\<close> strands in which no two strands coincide at an
  interpolated crossing time, every entry of the generator sequence that
  \<open>braid_from_piecewise\<close> builds is a nonzero signed generator index of absolute value
  between 1 and \<open>d - 1\<close>, so the conversion of the sequence into an element of the braid
  group on \<open>d\<close> strands succeeds and returns that word.
\<close>

theorem generators_within_braid_group:
  assumes "totalpoints strands = Inr tp" and "never_coincide tp" and "braid_list strands = Inr w"
  shows "(\<forall>g \<in> set w. g \<noteq> 0 \<and> 1 \<le> \<bar>g\<bar> \<and> \<bar>g\<bar> \<le> int (length strands) - 1)
         \<and> braid_from_piecewise strands = Inr w"
proof -
  from assms(1,3) have "braid_of_points tp = Inr w" by (simp add: braid_list_def ebind_def)
  from braid_of_points_generators[OF this assms(2)]
  have "\<forall>g \<in> set w. generator_ok (length strands) g"
    by (simp add: totalpoints_length[OF assms(1)])
  then have ok: "\<forall>g \<in> set w. g \<noteq> 0 \<and> 1 \<le> \<bar>g\<bar> \<and> \<bar>g\<bar> \<le> int (length strands) - 1"
    by (simp add: generator_ok_def)
  then have "BraidGroup (length strands) w = Inr w" by (simp add: BraidGroup_def)
  with assms(3) have "braid_from_piecewise strands = Inr w"
    by (simp add: braid_from_piecewise_def ebind_def)
  with ok show ?thesis by simp
qed


text \<open>The example of the docstring of \<open>braid_from_piecewise\<close>, whose braid is \<open>s0*s1\<close>.\<close>

theorem generators_within_braid_group_witness:
  "totalpoints [[(0, (0, 1)), (1/5, (- 1, - 1/2)), (4/5, (- 1, 0)), (1, (0, - 1))],
                [(0, (- 1, 0)), (1/2, (0, - 1)), (1, (1, 0))],
                [(0, (1, 0)), (1/2, (1, 1)), (1, (0, 1))]]
     = Inr [[(0, 1), (- 1, - 1/2), (- 1, - 1/4), (- 1, 0), (0, - 1)],
            [(- 1, 0), (- 3/5, - 2/5), (0, - 1), (3/5, - 2/5), (1, 0)],
            [(1, 0), (1, 2/5), (1, 1), (2/5, 1), (0, 1)]]
   \<and> never_coincide [[(0, 1), (- 1, - 1/2), (- 1, - 1/4), (- 1, 0), (0, - 1)],
            [(- 1, 0), (- 3/5, - 2/5), (0, - 1), (3/5, - 2/5), (1, 0)],
            [(1, 0), (1, 2/5), (1, 1), (2/5, 1), (0, 1)]]
   \<and> braid_list [[(0, (0, 1)), (1/5, (- 1, - 1/2)), (4/5, (- 1, 0)), (1, (0, - 1))],
                [(0, (- 1, 0)), (1/2, (0, - 1)), (1, (1, 0))],
                [(0, (1, 0)), (1/2, (1, 1)), (1, (0, 1))]] = Inr [1, 2]
   \<and> braid_from_piecewise [[(0, (0, 1)), (1/5, (- 1, - 1/2)), (4/5, (- 1, 0)), (1, (0, - 1))],
                [(0, (- 1, 0)), (1/2, (0, - 1)), (1, (1, 0))],
                [(0, (1, 0)), (1/2, (1, 1)), (1, (0, 1))]] = Inr [1, 2]"
proof -
  let ?L = "[[(0, (0, 1)), (1/5, (- 1, - 1/2)), (4/5, (- 1, 0)), (1, (0, - 1))],
                [(0, (- 1, 0)), (1/2, (0, - 1)), (1, (1, 0))],
                [(0, (1, 0)), (1/2, (1, 1)), (1, (0, 1))]] :: strand list"
  let ?tp = "[[(0, 1), (- 1, - 1/2), (- 1, - 1/4), (- 1, 0), (0, - 1)],
            [(- 1, 0), (- 3/5, - 2/5), (0, - 1), (3/5, - 2/5), (1, 0)],
            [(1, 0), (1, 2/5), (1, 1), (2/5, 1), (0, 1)]] :: point list list"
  have a: "totalpoints ?L = Inr ?tp" by code_simp
  have b: "never_coincide ?tp" by code_simp
  have c: "braid_list ?L = Inr [1, 2]" by code_simp
  from generators_within_braid_group[OF a b c] have "braid_from_piecewise ?L = Inr [1, 2]" by simp
  with a b c show ?thesis by (intro conjI)
qed


end
